theory Spec2Isabelle
  imports Main "HOL-Library.Word"
begin

unbundle bit_operations_syntax

section \<open>The decoder's data (htslib)\<close>

text \<open>
  Modelled from the spec: the binary-format decoder (htslib) is an external collaborator
  and its declarations are not part of the repository. The record types below carry the
  fields that \<^verbatim>\<open>bam_parser.cpp\<close> reads, with the widths htslib's \<^verbatim>\<open>sam.h\<close> gives them:
  \<^verbatim>\<open>hts_pos_t pos\<close> (64 bit, signed), \<^verbatim>\<open>int32_t tid\<close>, \<^verbatim>\<open>uint8_t qual\<close>,
  \<^verbatim>\<open>uint16_t flag\<close>, \<^verbatim>\<open>uint16_t l_qname\<close>, \<^verbatim>\<open>uint32_t n_cigar\<close>, \<^verbatim>\<open>int32_t l_qseq\<close>.
  Signed fields are words read with \<open>sint\<close>. \<open>l_qname\<close> is the decoder's length of the
  query name with its terminating NUL bytes counted in.
\<close>

record bam1_core_t =
  pos :: "64 word"
  tid :: "32 word"
  qual :: "8 word"
  flag :: "16 word"
  l_qname :: "16 word"
  n_cigar :: "32 word"
  l_qseq :: "32 word"

text \<open>
  A decoded record. The three arrays are what the accessor macros \<^verbatim>\<open>bam_get_qname\<close>,
  \<^verbatim>\<open>bam_get_cigar\<close> and \<^verbatim>\<open>bam_get_qual\<close> point to: the query name as a C string (without its
  terminator), the packed CIGAR words and the raw quality bytes. The counts in \<open>core\<close>
  are kept apart from the arrays, as the code reads them apart.
\<close>

record bam1_t =
  core :: bam1_core_t
  bam_get_qname :: string
  bam_get_cigar :: "32 word list"
  bam_get_qual :: "8 word list"

text \<open>The header: the reference-name table (\<^verbatim>\<open>n_targets\<close> is its length).\<close>

record bam_hdr_t =
  target_name :: "string list"

text \<open>
  Modelled from the spec: the flag constants of \<^verbatim>\<open>sam.h\<close> that the filter tests (the
  unmapped, secondary and supplementary flags), with the values the alignment format
  gives them: bits 2, 8 and 11.
\<close>

definition BAM_FUNMAP :: "32 word" where
  "BAM_FUNMAP = 4"

definition BAM_FSECONDARY :: "32 word" where
  "BAM_FSECONDARY = 256"

definition BAM_FSUPPLEMENTARY :: "32 word" where
  "BAM_FSUPPLEMENTARY = 2048"

text \<open>
  Modelled from the spec: the CIGAR macros of \<^verbatim>\<open>sam.h\<close>. A packed operation holds the length in its upper 28 bits
  and the operation code in its lower 4 bits; the symbol is looked up in
  \<^verbatim>\<open>"MIDNSHP=XB" "??????"\<close>.
\<close>

definition bam_cigar_oplen :: "32 word \<Rightarrow> 32 word" where
  "bam_cigar_oplen c = drop_bit 4 c"

definition bam_cigar_op :: "32 word \<Rightarrow> 32 word" where
  "bam_cigar_op c = c AND 15"

definition BAM_CIGAR_STR :: string where
  "BAM_CIGAR_STR = ''MIDNSHP=XB??????''"

definition bam_cigar_opchr :: "32 word \<Rightarrow> char" where
  "bam_cigar_opchr c = BAM_CIGAR_STR ! unat (bam_cigar_op c)"

section \<open>The output record\<close>

text \<open>
  Modelled from the spec: the class \<^verbatim>\<open>Overlap\<close> is only declared in the sources at hand.
  An \<open>Overlap\<close> is the tuple of arguments that \<^verbatim>\<open>parse\<close> passes to its constructor, in the
  constructor's order; a null pointer is \<open>None\<close>.
\<close>

record Overlap =
  q_name :: string
  q_name_length :: "32 word"
  o_flag :: "32 word"
  t_name :: string
  t_name_length :: "32 word"
  t_begin :: "32 word"
  mapping_quality :: "32 word"
  cigar :: string
  cigar_length :: "32 word"
  t_next_name :: string
  t_next_name_length :: "32 word"
  t_next_begin :: "32 word"
  template_length :: "32 word"
  sequence :: "string option"
  sequence_length :: "32 word"
  quality :: "string option"
  quality_length :: "32 word"

section \<open>Converting one record\<close>

text \<open>
  The reads that C++ leaves unchecked are branches of the model: one fault for each
  indexing expression, named after the place it stands for.
\<close>

datatype fault =
  TargetNameOutOfRange
  | CigarOutOfRange
  | QualFirstOutOfRange
  | QualOutOfRange

text \<open>
  \<^verbatim>\<open>std::to_string\<close> of the standard library on an unsigned value: its decimal digits,
  most significant first, with no leading zero.
\<close>

definition digit_char :: "nat \<Rightarrow> char" where
  "digit_char d = char_of (48 + d)"

fun to_string :: "nat \<Rightarrow> string" where
  "to_string n =
     (if n < 10 then [digit_char n] else to_string (n div 10) @ [digit_char (n mod 10)])"

declare to_string.simps [simp del]

text \<open>\<^verbatim>\<open>header_->target_name[alignment_->core.tid]\<close>\<close>

definition target_name_at :: "bam_hdr_t \<Rightarrow> 32 word \<Rightarrow> fault + string" where
  "target_name_at header t =
     (if 0 \<le> sint t \<and> nat (sint t) < length (target_name header)
      then Inr (target_name header ! nat (sint t))
      else Inl TargetNameOutOfRange)"

text \<open>
  The CIGAR loop, lines 116 to 121: \<open>i\<close> runs from 0 while \<open>i < n_cigar\<close>, and each
  round appends the decimal length and the symbol of \<open>cigar[i]\<close>.
\<close>

function cigar_loop :: "32 word list \<Rightarrow> nat \<Rightarrow> nat \<Rightarrow> string \<Rightarrow> fault + string" where
  "cigar_loop cig n i cigar_str =
     (if i < n then
        (if i < length cig then
           cigar_loop cig n (Suc i)
             (cigar_str @ to_string (unat (bam_cigar_oplen (cig ! i))) @ [bam_cigar_opchr (cig ! i)])
         else Inl CigarOutOfRange)
      else Inr cigar_str)"
  by pat_completeness auto
termination
  by (relation "measure (\<lambda>(cig, n, i, s). n - i)") auto

declare cigar_loop.simps [simp del]

text \<open>
  The quality loop, lines 130 to 133: after \<^verbatim>\<open>resize(sequence_length)\<close> the string has
  \<open>sequence_length\<close> characters, and round \<open>i\<close> overwrites character \<open>i\<close> with
  \<^verbatim>\<open>static_cast<char>(qual[i] + 33)\<close>; the sum is an \<^verbatim>\<open>int\<close>, the cast keeps its low byte.
\<close>

function quality_loop :: "8 word list \<Rightarrow> nat \<Rightarrow> nat \<Rightarrow> string \<Rightarrow> fault + string" where
  "quality_loop q n i quality_str =
     (if i < n then
        (if i < length q then
           quality_loop q n (Suc i) (quality_str[i := char_of (unat (q ! i) + 33)])
         else Inl QualOutOfRange)
      else Inr quality_str)"
  by pat_completeness auto
termination
  by (relation "measure (\<lambda>(q, n, i, s). n - i)") auto

declare quality_loop.simps [simp del]

text \<open>Lines 127 to 134: the quality string, empty when the first raw byte is \<open>0xff\<close>.\<close>

definition quality_string :: "8 word list \<Rightarrow> 32 word \<Rightarrow> fault + string" where
  "quality_string q sequence_length' =
     (case q of
        [] \<Rightarrow> Inl QualFirstOutOfRange
      | q0 # _ \<Rightarrow>
          if q0 \<noteq> 255
          then quality_loop q (unat sequence_length') 0 (replicate (unat sequence_length') (CHR 0x00))
          else Inr [])"

text \<open>
  Lines 101 to 160 for one record that passed the filter: the constructor's arguments
  and the byte estimate of the record. The estimate adds the two 32-bit name lengths
  first (in 32 bits), then the \<^verbatim>\<open>size_t\<close> and 32-bit terms in 64 bits (\<^verbatim>\<open>size_t\<close> has
  64 bits, as \<^verbatim>\<open>uint64_t current_bytes\<close> has). The conversions to \<^verbatim>\<open>uint32_t\<close> keep the
  low 32 bits.
\<close>

definition convert :: "bam_hdr_t \<Rightarrow> bam1_t \<Rightarrow> fault + (Overlap \<times> 64 word)" where
  "convert header alignment =
     (let flag' = (ucast (flag (core alignment)) :: 32 word);
          q_name' = bam_get_qname alignment;
          q_name_length' = (ucast (l_qname (core alignment)) :: 32 word) - 1
      in case target_name_at header (tid (core alignment)) of
           Inl e \<Rightarrow> Inl e
         | Inr t_name' \<Rightarrow>
      (let t_name_length' = (word_of_nat (length t_name') :: 32 word);
           t_begin' = (ucast (pos (core alignment) + 1) :: 32 word);
           mapping_quality' = (ucast (qual (core alignment)) :: 32 word)
       in case cigar_loop (bam_get_cigar alignment) (unat (n_cigar (core alignment))) 0 [] of
            Inl e \<Rightarrow> Inl e
          | Inr cigar_str \<Rightarrow>
      (let sequence_length' = l_qseq (core alignment)
       in case quality_string (bam_get_qual alignment) sequence_length' of
            Inl e \<Rightarrow> Inl e
          | Inr quality_str \<Rightarrow>
              Inr (\<lparr> q_name = q_name', q_name_length = q_name_length',
                     o_flag = flag',
                     t_name = t_name', t_name_length = t_name_length',
                     t_begin = t_begin',
                     mapping_quality = mapping_quality',
                     cigar = cigar_str, cigar_length = word_of_nat (length cigar_str),
                     t_next_name = ''*'', t_next_name_length = 1,
                     t_next_begin = 0,
                     template_length = 0,
                     sequence = None, sequence_length = sequence_length',
                     quality = (if quality_str = [] then None else Some quality_str),
                     quality_length = word_of_nat (length quality_str) \<rparr>,
                   ucast (q_name_length' + t_name_length')
                     + word_of_nat (length cigar_str)
                     + ucast sequence_length'
                     + word_of_nat (length quality_str)
                     + 100))))"

section \<open>The reader\<close>

text \<open>
  The members of \<^verbatim>\<open>BamParser<Overlap>\<close>; a member \<^verbatim>\<open>x_\<close> of the class is the field
  \<open>x_m\<close> here. The open stream \<open>file_m\<close> is the list of records
  not yet read; \<^verbatim>\<open>sam_read1\<close> takes the first one, and returns a negative value on the
  empty list (the end of the data, or a record that cannot be decoded, after which
  nothing more is read). The scratch buffer \<^verbatim>\<open>alignment_\<close> is overwritten by every successful read
  before any field of it is used, so its content is not part of the state.
\<close>

record BamParser =
  path_m :: string
  file_m :: "bam1_t list"
  header_m :: bam_hdr_t
  num_objects_read_m :: "64 word"
  is_eof_m :: bool

text \<open>
  What the loop of \<^verbatim>\<open>parse\<close> changes: the destination, the two locals
  \<^verbatim>\<open>current_bytes\<close> and \<^verbatim>\<open>num_objects\<close>, and the member \<^verbatim>\<open>num_objects_read_\<close>.
\<close>

record parse_vars =
  dst :: "Overlap list"
  current_bytes :: "64 word"
  num_objects :: "64 word"
  num_objects_read :: "64 word"

text \<open>The two ways out of the loop: \<^verbatim>\<open>return true\<close> at line 163, or the failed read.\<close>

datatype loop_exit = BudgetReached | StreamExhausted

text \<open>Line 97: the record is skipped.\<close>

definition skipped :: "bam1_t \<Rightarrow> bool" where
  "skipped alignment =
     (let flag' = (ucast (flag (core alignment)) :: 32 word)
      in flag' AND BAM_FUNMAP \<noteq> 0 \<or> flag' AND BAM_FSECONDARY \<noteq> 0
           \<or> flag' AND BAM_FSUPPLEMENTARY \<noteq> 0)"

text \<open>Lines 93 to 165. The result holds the exit taken, the rest of the stream and the variables.\<close>

fun parse_loop ::
  "bam_hdr_t \<Rightarrow> 64 word \<Rightarrow> bam1_t list \<Rightarrow> parse_vars
     \<Rightarrow> fault + (loop_exit \<times> bam1_t list \<times> parse_vars)" where
  "parse_loop header max_bytes [] v = Inr (StreamExhausted, [], v)"
| "parse_loop header max_bytes (alignment # rest) v =
     (if skipped alignment then parse_loop header max_bytes rest v
      else case convert header alignment of
             Inl e \<Rightarrow> Inl e
           | Inr (overlap, bytes) \<Rightarrow>
               (let v' = v\<lparr> dst := dst v @ [overlap],
                            num_objects := num_objects v + 1,
                            num_objects_read := num_objects_read v + 1,
                            current_bytes := current_bytes v + bytes \<rparr>
                in if current_bytes v' \<ge> max_bytes then Inr (BudgetReached, rest, v')
                   else parse_loop header max_bytes rest v'))"

text \<open>The loop as \<^verbatim>\<open>parse\<close> starts it: both locals are zero.\<close>

definition parse_run ::
  "BamParser \<Rightarrow> Overlap list \<Rightarrow> 64 word \<Rightarrow> fault + (loop_exit \<times> bam1_t list \<times> parse_vars)" where
  "parse_run p d max_bytes =
     parse_loop (header_m p) max_bytes (file_m p)
       \<lparr> dst = d, current_bytes = 0, num_objects = 0, num_objects_read = num_objects_read_m p \<rparr>"

text \<open>\<^verbatim>\<open>parse\<close>: the returned flag, the reader afterwards and the destination afterwards.\<close>

definition parse ::
  "BamParser \<Rightarrow> Overlap list \<Rightarrow> 64 word \<Rightarrow> fault + (bool \<times> BamParser \<times> Overlap list)" where
  "parse p d max_bytes =
     (if is_eof_m p then Inr (False, p, d)
      else case parse_run p d max_bytes of
             Inl e \<Rightarrow> Inl e
           | Inr (BudgetReached, rest, v) \<Rightarrow>
               Inr (True, p\<lparr> file_m := rest, num_objects_read_m := num_objects_read v \<rparr>, dst v)
           | Inr (StreamExhausted, rest, v) \<Rightarrow>
               Inr (num_objects v > 0,
                    p\<lparr> file_m := rest, num_objects_read_m := num_objects_read v, is_eof_m := True \<rparr>,
                    dst v))"

text \<open>A sequence of \<^verbatim>\<open>parse\<close> calls on one reader and one destination, one budget per call.\<close>

fun parse_calls ::
  "BamParser \<Rightarrow> Overlap list \<Rightarrow> 64 word list \<Rightarrow> fault + (bool list \<times> BamParser \<times> Overlap list)" where
  "parse_calls p d [] = Inr ([], p, d)"
| "parse_calls p d (max_bytes # budgets) =
     (case parse p d max_bytes of
        Inl e \<Rightarrow> Inl e
      | Inr (b, p', d') \<Rightarrow>
          (case parse_calls p' d' budgets of
             Inl e \<Rightarrow> Inl e
           | Inr (bs, p'', d'') \<Rightarrow> Inr (b # bs, p'', d'')))"

subsection \<open>Opening and reopening\<close>

text \<open>
  The files the process can open: \<^verbatim>\<open>hts_open\<close> finds a stream at a path or returns null;
  \<^verbatim>\<open>sam_hdr_read\<close> yields the header of the stream or null; \<^verbatim>\<open>bam_init1\<close> allocates or
  returns null. Each \<^verbatim>\<open>exit(1)\<close> is a value.
\<close>

record hts_stream =
  sam_hdr :: "bam_hdr_t option"
  records :: "bam1_t list"

record environment =
  hts_open :: "string \<Rightarrow> hts_stream option"
  bam_init1 :: bool

datatype fatal = OpenFailed | HeaderReadFailed | AllocationFailed

definition BamParser_new :: "environment \<Rightarrow> string \<Rightarrow> fatal + BamParser" where
  "BamParser_new env path =
     (case hts_open env path of
        None \<Rightarrow> Inl OpenFailed
      | Some f \<Rightarrow>
          (case sam_hdr f of
             None \<Rightarrow> Inl HeaderReadFailed
           | Some h \<Rightarrow>
               if \<not> bam_init1 env then Inl AllocationFailed
               else Inr \<lparr> path_m = path, file_m = records f, header_m = h,
                          num_objects_read_m = 0, is_eof_m = False \<rparr>))"

definition reset :: "environment \<Rightarrow> BamParser \<Rightarrow> fatal + BamParser" where
  "reset env p =
     (case hts_open env (path_m p) of
        None \<Rightarrow> Inl OpenFailed
      | Some f \<Rightarrow>
          (case sam_hdr f of
             None \<Rightarrow> Inl HeaderReadFailed
           | Some h \<Rightarrow>
               Inr (p\<lparr> file_m := records f, header_m := h,
                       num_objects_read_m := 0, is_eof_m := False \<rparr>)))"

section \<open>Notions used in the statements\<close>

text \<open>The text of one packed CIGAR operation: its decimal length, then its symbol.\<close>

definition cigar_op_text :: "32 word \<Rightarrow> string" where
  "cigar_op_text c = to_string (unat (bam_cigar_oplen c)) @ [bam_cigar_opchr c]"

text \<open>
  Modelled from the spec: packing a (length, operation code) pair, as the macro \<^verbatim>\<open>bam_cigar_gen\<close> of \<^verbatim>\<open>sam.h\<close>
  does: \<^verbatim>\<open>(l) << 4 | (o)\<close>. Operation code 0 is \<open>M\<close>, 1 is \<open>I\<close>.
\<close>

definition bam_cigar_gen :: "32 word \<Rightarrow> 32 word \<Rightarrow> 32 word" where
  "bam_cigar_gen l op = push_bit 4 l OR op"

text \<open>Reading a string of decimal digits back as a number.\<close>

definition decimal_value :: "string \<Rightarrow> nat" where
  "decimal_value s = foldl (\<lambda>a c. 10 * a + (of_char c - 48)) 0 s"

text \<open>The records that pass the filter of line 97.\<close>

definition accepted :: "bam1_t list \<Rightarrow> bam1_t list" where
  "accepted rs = filter (\<lambda>a. \<not> skipped a) rs"

text \<open>The quality string handed to the constructor, a null pointer read as the empty string.\<close>

definition quality_text :: "Overlap \<Rightarrow> string" where
  "quality_text ov = (case quality ov of None \<Rightarrow> [] | Some s \<Rightarrow> s)"

subsection \<open>A small alignment file\<close>

text \<open>
  Five records on two references: an unmapped read, a primary alignment with quality
  values, a secondary alignment, the unmapped read again, and a primary alignment whose
  quality is absent.
\<close>

definition ex_header :: bam_hdr_t where
  "ex_header = \<lparr> target_name = [''chr1'', ''chr2''] \<rparr>"

definition ex_unmapped :: bam1_t where
  "ex_unmapped =
     \<lparr> core = \<lparr> pos = - 1, tid = - 1, qual = 0, flag = 4, l_qname = 3, n_cigar = 0, l_qseq = 2 \<rparr>,
       bam_get_qname = ''u1'', bam_get_cigar = [], bam_get_qual = [30, 30] \<rparr>"

definition ex_secondary :: bam1_t where
  "ex_secondary =
     \<lparr> core = \<lparr> pos = 7, tid = 1, qual = 3, flag = 256, l_qname = 3, n_cigar = 1, l_qseq = 2 \<rparr>,
       bam_get_qname = ''r1'', bam_get_cigar = [bam_cigar_gen 2 0], bam_get_qual = [255, 255] \<rparr>"

definition ex_primary :: bam1_t where
  "ex_primary =
     \<lparr> core = \<lparr> pos = 99, tid = 0, qual = 60, flag = 16, l_qname = 3, n_cigar = 3, l_qseq = 3 \<rparr>,
       bam_get_qname = ''r1'',
       bam_get_cigar = [bam_cigar_gen 4 0, bam_cigar_gen 2 1, bam_cigar_gen 10 0],
       bam_get_qual = [33, 34, 35] \<rparr>"

definition ex_primary_noqual :: bam1_t where
  "ex_primary_noqual =
     \<lparr> core = \<lparr> pos = 0, tid = 1, qual = 0, flag = 0, l_qname = 3, n_cigar = 0, l_qseq = 3 \<rparr>,
       bam_get_qname = ''r2'', bam_get_cigar = [], bam_get_qual = [255, 255, 255] \<rparr>"

definition ex_file :: "bam1_t list" where
  "ex_file = [ex_unmapped, ex_primary, ex_secondary, ex_unmapped, ex_primary_noqual]"

definition ex_overlap :: Overlap where
  "ex_overlap =
     \<lparr> q_name = ''r1'', q_name_length = 2, o_flag = 16, t_name = ''chr1'', t_name_length = 4,
       t_begin = 100, mapping_quality = 60, cigar = ''4M2I10M'', cigar_length = 7,
       t_next_name = ''*'', t_next_name_length = 1, t_next_begin = 0, template_length = 0,
       sequence = None, sequence_length = 3, quality = Some ''BCD'', quality_length = 3 \<rparr>"

definition ex_overlap_noqual :: Overlap where
  "ex_overlap_noqual =
     \<lparr> q_name = ''r2'', q_name_length = 2, o_flag = 0, t_name = ''chr2'', t_name_length = 4,
       t_begin = 1, mapping_quality = 0, cigar = [], cigar_length = 0,
       t_next_name = ''*'', t_next_name_length = 1, t_next_begin = 0, template_length = 0,
       sequence = None, sequence_length = 3, quality = None, quality_length = 0 \<rparr>"

definition ex_env :: environment where
  "ex_env =
     \<lparr> hts_open = (\<lambda>path. if path = ''reads.bam''
                        then Some \<lparr> sam_hdr = Some ex_header, records = ex_file \<rparr> else None),
       bam_init1 = True \<rparr>"

definition ex_parser :: BamParser where
  "ex_parser = \<lparr> path_m = ''reads.bam'', file_m = ex_file, header_m = ex_header,
                 num_objects_read_m = 0, is_eof_m = False \<rparr>"

text \<open>
  The primary alignment as the decoder stores a two-character name: the terminator and
  one padding NUL byte follow the name, and \<open>l_qname\<close> counts both. The overlap is what
  the conversion makes of it.
\<close>

definition ex_padded :: bam1_t where
  "ex_padded = ex_primary\<lparr> core := (core ex_primary)\<lparr> l_qname := 4 \<rparr> \<rparr>"

definition ex_overlap_padded :: Overlap where
  "ex_overlap_padded = ex_overlap\<lparr> q_name_length := 3 \<rparr>"

text \<open>
  The files at a later time: the path now holds another header and one record, and an
  allocation would fail.
\<close>

definition ex_header_later :: bam_hdr_t where
  "ex_header_later = \<lparr> target_name = [''ctgA''] \<rparr>"

definition ex_env_later :: environment where
  "ex_env_later =
     \<lparr> hts_open = (\<lambda>path. if path = ''reads.bam''
                        then Some \<lparr> sam_hdr = Some ex_header_later, records = [ex_primary] \<rparr>
                        else None),
       bam_init1 = False \<rparr>"

section \<open>Auxiliary lemmas\<close>

subsection \<open>The inner loops\<close>

lemma cigar_loop_Inr:
  "cigar_loop cig n i s = Inr s' \<Longrightarrow>
     s' = s @ concat (map cigar_op_text (drop i (take n cig))) \<and> (i < n \<longrightarrow> n \<le> length cig)"
proof (induction cig n i s rule: cigar_loop.induct)
  case (1 cig n i s)
  show ?case
  proof (cases "i < n")
    case False
    with "1.prems" show ?thesis by (simp add: cigar_loop.simps)
  next
    case True
    note lt = this
    show ?thesis
    proof (cases "i < length cig")
      case False
      with lt "1.prems" show ?thesis by (simp add: cigar_loop.simps)
    next
      case True
      let ?acc = "s @ to_string (unat (bam_cigar_oplen (cig ! i))) @ [bam_cigar_opchr (cig ! i)]"
      have e: "?acc = s @ cigar_op_text (cig ! i)"
        by (simp add: cigar_op_text_def)
      from lt True "1.prems" have rec: "cigar_loop cig n (Suc i) ?acc = Inr s'"
        by (simp add: cigar_loop.simps [of cig n i])
      from "1.IH" [OF lt True rec]
      have ih: "s' = (s @ cigar_op_text (cig ! i)) @ concat (map cigar_op_text (drop (Suc i) (take n cig)))"
        and ih2: "Suc i < n \<longrightarrow> n \<le> length cig"
        unfolding e by simp_all
      from lt True ih2 have n: "n \<le> length cig" by (cases "Suc i < n") auto
      with lt have "drop i (take n cig) = cig ! i # drop (Suc i) (take n cig)"
        by (metis Cons_nth_drop_Suc length_take min.absorb2 nth_take)
      with ih n show ?thesis by simp
    qed
  qed
qed

lemma quality_loop_Inr:
  "quality_loop q n i s = Inr s' \<Longrightarrow> length s = n \<Longrightarrow>
     s' = take i s @ map (\<lambda>b. char_of (unat b + 33)) (drop i (take n q)) \<and> (i < n \<longrightarrow> n \<le> length q)"
proof (induction q n i s rule: quality_loop.induct)
  case (1 q n i s)
  show ?case
  proof (cases "i < n")
    case False
    with "1.prems" show ?thesis by (simp add: quality_loop.simps)
  next
    case True
    note lt = this
    show ?thesis
    proof (cases "i < length q")
      case False
      with lt "1.prems" show ?thesis by (simp add: quality_loop.simps)
    next
      case True
      let ?c = "char_of (unat (q ! i) + 33) :: char"
      from True lt "1.prems" have rec: "quality_loop q n (Suc i) (s[i := ?c]) = Inr s'"
        by (simp add: quality_loop.simps [of q n i])
      from "1.IH" [OF lt True rec] "1.prems"
      have ih: "s' = take (Suc i) (s[i := ?c]) @ map (\<lambda>b. char_of (unat b + 33)) (drop (Suc i) (take n q))"
        and ih2: "Suc i < n \<longrightarrow> n \<le> length q"
        by simp_all
      from lt True ih2 have n: "n \<le> length q" by (cases "Suc i < n") auto
      with lt have d: "drop i (take n q) = q ! i # drop (Suc i) (take n q)"
        by (metis Cons_nth_drop_Suc length_take min.absorb2 nth_take)
      from lt "1.prems" have t: "take (Suc i) (s[i := ?c]) = take i s @ [?c]"
        by (simp add: take_Suc_conv_app_nth)
      from ih d t n show ?thesis by simp
    qed
  qed
qed

lemma of_char_digit_char: "d < 10 \<Longrightarrow> (of_char (digit_char d) :: nat) = 48 + d"
  by (simp add: digit_char_def)

lemma digit_char_in: "d < 10 \<Longrightarrow> digit_char d \<in> set ''0123456789''"
proof -
  assume "d < 10"
  then have "d \<in> {0,1,2,3,4,5,6,7,8,9}" by auto
  then show ?thesis by (auto simp: digit_char_def char_of_eq_iff)
qed

lemma to_string_digits: "decimal_value (to_string n) = n \<and> (\<forall>c\<in>set (to_string n). c \<in> set ''0123456789'')"
proof (induction n rule: to_string.induct)
  case (1 n)
  show ?case
  proof (cases "n < 10")
    case True
    then show ?thesis
      using digit_char_in [OF True]
      by (simp add: decimal_value_def to_string.simps [of n] of_char_digit_char)
  next
    case False
    have m: "n mod 10 < 10" by simp
    from "1.IH" [OF False] False show ?thesis
      using digit_char_in [OF m]
      by (simp add: decimal_value_def to_string.simps [of n] of_char_digit_char [OF m])
  qed
qed

subsection \<open>One record\<close>

lemma convert_Inr:
  assumes "convert h a = Inr (ov, c)"
  obtains tn cs qs where
    "target_name_at h (tid (core a)) = Inr tn"
    "cigar_loop (bam_get_cigar a) (unat (n_cigar (core a))) 0 [] = Inr cs"
    "quality_string (bam_get_qual a) (l_qseq (core a)) = Inr qs"
    "ov = \<lparr> q_name = bam_get_qname a,
            q_name_length = ucast (l_qname (core a)) - 1,
            o_flag = ucast (flag (core a)),
            t_name = tn, t_name_length = word_of_nat (length tn),
            t_begin = ucast (pos (core a) + 1),
            mapping_quality = ucast (qual (core a)),
            cigar = cs, cigar_length = word_of_nat (length cs),
            t_next_name = ''*'', t_next_name_length = 1,
            t_next_begin = 0, template_length = 0,
            sequence = None, sequence_length = l_qseq (core a),
            quality = (if qs = [] then None else Some qs),
            quality_length = word_of_nat (length qs) \<rparr>"
    "c = ucast ((ucast (l_qname (core a)) :: 32 word) - 1 + word_of_nat (length tn))
           + word_of_nat (length cs) + ucast (l_qseq (core a)) + word_of_nat (length qs) + 100"
  using assms by (auto simp: convert_def Let_def split: sum.splits)

lemma quality_string_Inr:
  assumes "quality_string q n = Inr qs"
  shows "q \<noteq> []"
    and "hd q = 255 \<Longrightarrow> qs = []"
    and "hd q \<noteq> 255 \<Longrightarrow> qs = map (\<lambda>b. char_of (unat b + 33)) (take (unat n) q)"
    and "hd q \<noteq> 255 \<Longrightarrow> length qs = unat n"
proof -
  from assms show ne: "q \<noteq> []" by (auto simp: quality_string_def)
  then obtain q0 q' where q: "q = q0 # q'" by (cases q) auto
  show "qs = []" if "hd q = 255"
    using assms that q by (simp add: quality_string_def)
  have loop: "quality_loop q (unat n) 0 (replicate (unat n) (CHR 0x00)) = Inr qs" if "hd q \<noteq> 255"
    using assms that q by (simp add: quality_string_def)
  show m: "qs = map (\<lambda>b. char_of (unat b + 33)) (take (unat n) q)" if "hd q \<noteq> 255"
    using quality_loop_Inr [OF loop [OF that]] by simp
  show "length qs = unat n" if "hd q \<noteq> 255"
  proof (cases "0 < unat n")
    case True
    with quality_loop_Inr [OF loop [OF that]] have "unat n \<le> length q" by simp
    with m [OF that] show ?thesis by simp
  next
    case False
    with m [OF that] show ?thesis by simp
  qed
qed

subsection \<open>Machine arithmetic\<close>

lemma skipped_bits:
  "skipped a \<longleftrightarrow> bit (flag (core a)) 2 \<or> bit (flag (core a)) 8 \<or> bit (flag (core a)) 11"
proof -
  have "(4 :: 32 word) = 2 ^ 2" "(256 :: 32 word) = 2 ^ 8" "(2048 :: 32 word) = 2 ^ 11" by simp_all
  then show ?thesis
    unfolding skipped_def Let_def BAM_FUNMAP_def BAM_FSECONDARY_def BAM_FSUPPLEMENTARY_def
    by (simp only: and_exp_eq_0_iff_not_bit bit_ucast_iff) simp
qed

lemma t_begin_int:
  fixes p :: "64 word"
  assumes "0 \<le> sint p" "sint p < 2 ^ 32 - 1"
  shows "uint (ucast (p + 1) :: 32 word) = sint p + 1"
proof -
  from assms have "take_bit 64 (sint p) = sint p"
    by (intro take_bit_int_eq_self) simp_all
  then have s: "sint p = uint p" by (simp add: uint_sint)
  with assms have b: "0 \<le> uint p" "uint p < 2 ^ 32 - 1" by simp_all
  have "uint (p + 1) = (uint p + 1) mod 2 ^ 64" by (simp add: uint_word_ariths)
  with b have u: "uint (p + 1) = uint p + 1" by simp
  have "uint (ucast (p + 1) :: 32 word) = uint (p + 1) mod 2 ^ 32"
    by (simp add: unsigned_ucast_eq take_bit_eq_mod)
  with u b s show ?thesis by simp
qed

lemma qname_len_nat:
  fixes l :: "16 word"
  assumes "0 < unat l"
  shows "unat ((ucast l :: 32 word) - 1) = unat l - 1"
proof -
  have "unat l < 2 ^ 16" using unsigned_less [of l, where ?'a = nat] by simp
  then have u: "unat (ucast l :: 32 word) = unat l"
    by (simp add: unsigned_ucast_eq take_bit_eq_mod)
  with assms have "(ucast l :: 32 word) \<noteq> 0" by (metis unat_0 less_irrefl)
  then have "unat ((ucast l :: 32 word) - 1) = unat (ucast l :: 32 word) - 1"
    by (rule unat_minus_one)
  with u show ?thesis by simp
qed

lemma cigar_gen_parts:
  fixes l op :: "32 word"
  assumes "l < 2 ^ 28" "op < 16"
  shows "bam_cigar_oplen (bam_cigar_gen l op) = l" "bam_cigar_op (bam_cigar_gen l op) = op"
proof -
  from assms(1) have tl: "take_bit 28 l = l" by (simp add: take_bit_eq_mask less_mask_eq)
  from assms(2) have "op < 2 ^ 4" by simp
  then have to: "take_bit 4 op = op" by (simp only: take_bit_eq_mask less_mask_eq)
  have bl: "bit l n \<Longrightarrow> n < 28" for n
    using tl by (metis bit_take_bit_iff)
  have bo: "bit op n \<Longrightarrow> n < 4" for n
    using to by (metis bit_take_bit_iff)
  show "bam_cigar_oplen (bam_cigar_gen l op) = l"
    unfolding bam_cigar_oplen_def bam_cigar_gen_def
    by (rule bit_word_eqI) (auto simp: bit_simps dest: bl bo)
  have m: "(15 :: 32 word) = mask 4" by (simp add: mask_eq_exp_minus_1)
  show "bam_cigar_op (bam_cigar_gen l op) = op"
    unfolding bam_cigar_op_def bam_cigar_gen_def m
    by (rule bit_word_eqI) (auto simp: bit_simps dest: bl bo)
qed

subsection \<open>The main loop\<close>

lemma parse_loop_Inr:
  "parse_loop h mb f v = Inr (ex, rest, v') \<Longrightarrow>
   \<exists>consumed pairs.
     f = consumed @ rest
     \<and> list_all2 (\<lambda>a oc. convert h a = Inr oc) (filter (\<lambda>a. \<not> skipped a) consumed) pairs
     \<and> dst v' = dst v @ map fst pairs
     \<and> num_objects v' = num_objects v + word_of_nat (length pairs)
     \<and> num_objects_read v' = num_objects_read v + word_of_nat (length pairs)
     \<and> current_bytes v' = current_bytes v + sum_list (map snd pairs)
     \<and> (\<forall>k. 0 < k \<and> k < length pairs \<longrightarrow> current_bytes v + sum_list (map snd (take k pairs)) < mb)
     \<and> (ex = BudgetReached \<longrightarrow> pairs \<noteq> [] \<and> mb \<le> current_bytes v' \<and> consumed \<noteq> [] \<and> \<not> skipped (last consumed))
     \<and> (ex = StreamExhausted \<longrightarrow> rest = [] \<and> (pairs \<noteq> [] \<longrightarrow> current_bytes v' < mb))"
proof (induction f arbitrary: v)
  case Nil
  then show ?case by auto
next
  case (Cons a f)
  show ?case
  proof (cases "skipped a")
    case True
    with Cons.prems have "parse_loop h mb f v = Inr (ex, rest, v')" by simp
    from Cons.IH [OF this] obtain consumed pairs where
      ih: "f = consumed @ rest"
        "list_all2 (\<lambda>a oc. convert h a = Inr oc) (filter (\<lambda>a. \<not> skipped a) consumed) pairs"
        "dst v' = dst v @ map fst pairs"
        "num_objects v' = num_objects v + word_of_nat (length pairs)"
        "num_objects_read v' = num_objects_read v + word_of_nat (length pairs)"
        "current_bytes v' = current_bytes v + sum_list (map snd pairs)"
        "\<forall>k. 0 < k \<and> k < length pairs \<longrightarrow> current_bytes v + sum_list (map snd (take k pairs)) < mb"
        "ex = BudgetReached \<longrightarrow> pairs \<noteq> [] \<and> mb \<le> current_bytes v' \<and> consumed \<noteq> [] \<and> \<not> skipped (last consumed)"
        "ex = StreamExhausted \<longrightarrow> rest = [] \<and> (pairs \<noteq> [] \<longrightarrow> current_bytes v' < mb)"
      by blast
    show ?thesis
      apply (rule exI [of _ "a # consumed"], rule exI [of _ pairs])
      using ih True by simp
  next
    case False
    with Cons.prems obtain ov c where conv: "convert h a = Inr (ov, c)"
      by (auto split: sum.splits)
    define v1 where "v1 = v\<lparr> dst := dst v @ [ov], num_objects := num_objects v + 1,
      num_objects_read := num_objects_read v + 1, current_bytes := current_bytes v + c \<rparr>"
    show ?thesis
    proof (cases "mb \<le> current_bytes v + c")
      case True
      with Cons.prems False conv have r: "ex = BudgetReached" "rest = f" "v' = v1"
        by (simp_all add: v1_def Let_def)
      show ?thesis
        apply (rule exI [of _ "[a]"], rule exI [of _ "[(ov, c)]"])
        using r False conv True by (simp add: v1_def)
    next
      case nb: False
      with Cons.prems False conv have "parse_loop h mb f v1 = Inr (ex, rest, v')"
        by (simp add: v1_def Let_def)
      from Cons.IH [OF this] obtain consumed pairs where
        ih: "f = consumed @ rest"
          "list_all2 (\<lambda>a oc. convert h a = Inr oc) (filter (\<lambda>a. \<not> skipped a) consumed) pairs"
          "dst v' = dst v1 @ map fst pairs"
          "num_objects v' = num_objects v1 + word_of_nat (length pairs)"
          "num_objects_read v' = num_objects_read v1 + word_of_nat (length pairs)"
          "current_bytes v' = current_bytes v1 + sum_list (map snd pairs)"
          "\<forall>k. 0 < k \<and> k < length pairs \<longrightarrow> current_bytes v1 + sum_list (map snd (take k pairs)) < mb"
          "ex = BudgetReached \<longrightarrow> pairs \<noteq> [] \<and> mb \<le> current_bytes v' \<and> consumed \<noteq> [] \<and> \<not> skipped (last consumed)"
          "ex = StreamExhausted \<longrightarrow> rest = [] \<and> (pairs \<noteq> [] \<longrightarrow> current_bytes v' < mb)"
        by blast
      have pre: "current_bytes v + sum_list (map snd (take k ((ov, c) # pairs))) < mb"
        if "0 < k" "k < length ((ov, c) # pairs)" for k
      proof (cases k)
        case 0
        with that show ?thesis by simp
      next
        case (Suc j)
        show ?thesis
        proof (cases j)
          case 0
          with Suc nb show ?thesis by simp
        next
          case (Suc j')
          with \<open>k = Suc j\<close> that ih(7) have "current_bytes v1 + sum_list (map snd (take j pairs)) < mb"
            by simp
          with \<open>k = Suc j\<close> show ?thesis by (simp add: v1_def add.assoc)
        qed
      qed
      have ex1: "ex = StreamExhausted \<longrightarrow> current_bytes v' < mb"
      proof (cases "pairs = []")
        case True
        with ih(6) nb show ?thesis by (simp add: v1_def not_le)
      next
        case False
        with ih(9) show ?thesis by simp
      qed
      show ?thesis
        apply (rule exI [of _ "a # consumed"], rule exI [of _ "(ov, c) # pairs"])
        using ih(1-6) ih(8,9) False conv pre ex1 by (simp add: v1_def add.assoc)
    qed
  qed
qed

lemma parse_run_Inr:
  assumes "parse_run p d mb = Inr (ex, rest, v)"
  obtains consumed pairs where
    "file_m p = consumed @ rest"
    "list_all2 (\<lambda>a oc. convert (header_m p) a = Inr oc) (accepted consumed) pairs"
    "dst v = d @ map fst pairs"
    "num_objects v = word_of_nat (length pairs)"
    "num_objects_read v = num_objects_read_m p + word_of_nat (length pairs)"
    "current_bytes v = sum_list (map snd pairs)"
    "\<forall>k. 0 < k \<and> k < length pairs \<longrightarrow> sum_list (map snd (take k pairs)) < mb"
    "ex = BudgetReached \<longrightarrow> pairs \<noteq> [] \<and> mb \<le> sum_list (map snd pairs) \<and> consumed \<noteq> [] \<and> \<not> skipped (last consumed)"
    "ex = StreamExhausted \<longrightarrow> rest = [] \<and> (pairs \<noteq> [] \<longrightarrow> sum_list (map snd pairs) < mb)"
proof -
  from parse_loop_Inr [OF assms [unfolded parse_run_def]]
  obtain consumed pairs where
    "file_m p = consumed @ rest"
    "list_all2 (\<lambda>a oc. convert (header_m p) a = Inr oc) (filter (\<lambda>a. \<not> skipped a) consumed) pairs"
    "dst v = d @ map fst pairs"
    "num_objects v = word_of_nat (length pairs)"
    "num_objects_read v = num_objects_read_m p + word_of_nat (length pairs)"
    "current_bytes v = sum_list (map snd pairs)"
    "\<forall>k. 0 < k \<and> k < length pairs \<longrightarrow> sum_list (map snd (take k pairs)) < mb"
    "ex = BudgetReached \<longrightarrow> pairs \<noteq> [] \<and> mb \<le> current_bytes v \<and> consumed \<noteq> [] \<and> \<not> skipped (last consumed)"
    "ex = StreamExhausted \<longrightarrow> rest = [] \<and> (pairs \<noteq> [] \<longrightarrow> current_bytes v < mb)"
    by auto
  then show thesis
    by (intro that [of consumed pairs]) (simp_all add: accepted_def)
qed

lemma parse_not_eof:
  assumes "\<not> is_eof_m p" and "parse p d mb = Inr (ret, p', d')"
  obtains ex v where
    "parse_run p d mb = Inr (ex, file_m p', v)"
    "d' = dst v"
    "ret = (ex = BudgetReached \<or> 0 < num_objects v)"
    "is_eof_m p' = (ex = StreamExhausted)"
    "p' = p\<lparr> file_m := file_m p', num_objects_read_m := num_objects_read v,
              is_eof_m := (ex = StreamExhausted) \<rparr>"
proof -
  from assms obtain ex rest v where run: "parse_run p d mb = Inr (ex, rest, v)"
    by (auto simp: parse_def split: sum.splits)
  show thesis
  proof (cases ex)
    case BudgetReached
    with assms run show ?thesis
      by (intro that [of ex v]) (auto simp: parse_def)
  next
    case StreamExhausted
    with assms run show ?thesis
      by (intro that [of ex v]) (auto simp: parse_def)
  qed
qed

lemma parse_appends:
  assumes "parse p d mb = Inr (ret, p', d')"
  obtains consumed pairs where
    "file_m p = consumed @ file_m p'"
    "list_all2 (\<lambda>a oc. convert (header_m p) a = Inr oc) (accepted consumed) pairs"
    "d' = d @ map fst pairs"
    "num_objects_read_m p' = num_objects_read_m p + word_of_nat (length pairs)"
    "header_m p' = header_m p"
    "path_m p' = path_m p"
proof (cases "is_eof_m p")
  case True
  with assms have "p' = p" "d' = d" by (simp_all add: parse_def)
  then show ?thesis by (intro that [of "[]" "[]"]) (simp_all add: accepted_def)
next
  case False
  show ?thesis
  proof (rule parse_not_eof [OF False assms])
    fix ex v
    assume run: "parse_run p d mb = Inr (ex, file_m p', v)" and d': "d' = dst v"
      and p': "p' = p\<lparr> file_m := file_m p', num_objects_read_m := num_objects_read v,
                is_eof_m := (ex = StreamExhausted) \<rparr>"
    have h1: "header_m p' = header_m p"
      using arg_cong [OF p', of header_m] by simp
    have h2: "path_m p' = path_m p"
      using arg_cong [OF p', of path_m] by simp
    have h3: "num_objects_read_m p' = num_objects_read v"
      using arg_cong [OF p', of num_objects_read_m] by simp
    show ?thesis
    proof (rule parse_run_Inr [OF run])
      fix consumed pairs
      assume a: "file_m p = consumed @ file_m p'"
        and b: "list_all2 (\<lambda>a oc. convert (header_m p) a = Inr oc) (accepted consumed) pairs"
        and c: "dst v = d @ map fst pairs"
        and e: "num_objects_read v = num_objects_read_m p + word_of_nat (length pairs)"
      from c d' have c': "d' = d @ map fst pairs" by simp
      from e h3 have e': "num_objects_read_m p' = num_objects_read_m p + word_of_nat (length pairs)"
        by simp
      show ?thesis by (rule that [OF a b c' e' h1 h2])
    qed
  qed
qed

lemma parse_calls_keeps:
  "parse_calls p d budgets = Inr (rets, p', d') \<Longrightarrow> header_m p' = header_m p \<and> path_m p' = path_m p"
proof (induction budgets arbitrary: p d rets)
  case Nil
  then show ?case by simp
next
  case (Cons mb budgets)
  from Cons.prems obtain b p1 d1 bs where
    one: "parse p d mb = Inr (b, p1, d1)" and rest: "parse_calls p1 d1 budgets = Inr (bs, p', d')"
    by (auto split: sum.splits)
  have "header_m p1 = header_m p \<and> path_m p1 = path_m p"
    by (rule parse_appends [OF one]) simp
  with Cons.IH [OF rest] show ?case by simp
qed

section \<open>Properties of the reader\<close>

subsection \<open>After the end of the stream\<close>

text \<open>
  C7. Once \<open>is_eof_m\<close> is set, \<^verbatim>\<open>parse\<close> returns false at once: the reader (its stream
  and its counter included) and the destination are left as they were, for one call and
  for any sequence of calls, whatever the budgets.
\<close>

theorem parse_after_eof:
  assumes "is_eof_m p"
  shows "parse p d max_bytes = Inr (False, p, d)
       \<and> parse_calls p d budgets = Inr (replicate (length budgets) False, p, d)"
proof
  from assms show one: "parse p d max_bytes = Inr (False, p, d)" for max_bytes
    by (simp add: parse_def)
  show "parse_calls p d budgets = Inr (replicate (length budgets) False, p, d)"
    by (induction budgets) (simp_all add: one)
qed

theorem parse_after_eof_witness:
  "is_eof_m (ex_parser\<lparr> file_m := [], num_objects_read_m := 2, is_eof_m := True \<rparr>)
   \<and> parse ex_parser [] (- 1)
       = Inr (True, ex_parser\<lparr> file_m := [], num_objects_read_m := 2, is_eof_m := True \<rparr>,
              [ex_overlap, ex_overlap_noqual])
   \<and> parse (ex_parser\<lparr> file_m := [], num_objects_read_m := 2, is_eof_m := True \<rparr>)
        [ex_overlap, ex_overlap_noqual] 0
       = Inr (False, ex_parser\<lparr> file_m := [], num_objects_read_m := 2, is_eof_m := True \<rparr>,
              [ex_overlap, ex_overlap_noqual])
   \<and> parse_calls (ex_parser\<lparr> file_m := [], num_objects_read_m := 2, is_eof_m := True \<rparr>)
        [ex_overlap, ex_overlap_noqual] [0, 5, - 1]
       = Inr ([False, False, False],
              ex_parser\<lparr> file_m := [], num_objects_read_m := 2, is_eof_m := True \<rparr>,
              [ex_overlap, ex_overlap_noqual])"
proof -
  let ?p = "ex_parser\<lparr> file_m := [], num_objects_read_m := 2, is_eof_m := True \<rparr>"
  have eof: "is_eof_m ?p" by simp
  have first: "parse ex_parser [] (- 1) = Inr (True, ?p, [ex_overlap, ex_overlap_noqual])"
    by code_simp
  have r: "replicate (length [0 :: 64 word, 5, - 1]) False = [False, False, False]"
    by simp
  note t = parse_after_eof [OF eof, of "[ex_overlap, ex_overlap_noqual]" 0 "[0, 5, - 1]", unfolded r]
  show ?thesis
    by (intro conjI eof first t [THEN conjunct1] t [THEN conjunct2])
qed

subsection \<open>Reset\<close>

text \<open>
  C8. \<^verbatim>\<open>reset\<close> reopens the stream at the reader's path and reads the header of the
  reopened stream: whatever reader \<^verbatim>\<open>parse\<close> calls have made of a constructed one, and
  whatever the files are by then, the reader after \<^verbatim>\<open>reset\<close> has its path, all the
  records and the header of the stream now at that path, the counter at zero and
  \<open>is_eof_m\<close> false. That is the reader the constructor builds from the files as they
  are at the reset, so every call sequence yields after \<^verbatim>\<open>reset\<close> what it yields after
  construction; with the files unchanged it is the reader first constructed. When the
  path cannot be opened, or the header cannot be read, \<^verbatim>\<open>reset\<close> ends the process.
\<close>

theorem reset_restores:
  assumes "BamParser_new env path = Inr q0"
    and "parse_calls q0 d1 budgets1 = Inr (rets1, p1, d1')"
    and "hts_open env' path = Some f"
    and "sam_hdr f = Some h"
  shows "reset env' p1
           = Inr \<lparr> path_m = path, file_m = records f, header_m = h,
                   num_objects_read_m = 0, is_eof_m = False \<rparr>
       \<and> (bam_init1 env' \<longrightarrow> reset env' p1 = BamParser_new env' path)
       \<and> (\<forall>p0. BamParser_new env' path = Inr p0 \<longrightarrow>
             reset env' p1 = Inr p0
           \<and> (\<exists>p'. reset env' p1 = Inr p' \<and> parse_calls p' d budgets = parse_calls p0 d budgets))
       \<and> reset env p1 = Inr q0
       \<and> path_m q0 = path \<and> num_objects_read_m q0 = 0 \<and> \<not> is_eof_m q0
       \<and> (\<exists>p'. reset env p1 = Inr p' \<and> parse_calls p' d budgets = parse_calls q0 d budgets)
       \<and> (hts_open env'' path = None \<longrightarrow> reset env'' p1 = Inl OpenFailed)
       \<and> (\<forall>g. hts_open env'' path = Some g \<and> sam_hdr g = None \<longrightarrow>
             reset env'' p1 = Inl HeaderReadFailed)"
proof -
  from assms(1) obtain f0 h0 where
    f0: "hts_open env path = Some f0" and h0: "sam_hdr f0 = Some h0"
    and q0: "q0 = \<lparr> path_m = path, file_m = records f0, header_m = h0,
                     num_objects_read_m = 0, is_eof_m = False \<rparr>"
    by (auto simp: BamParser_new_def split: option.splits if_splits)
  from parse_calls_keeps [OF assms(2)] q0 have path: "path_m p1 = path" by simp
  let ?r = "\<lparr> path_m = path, file_m = records f, header_m = h,
                   num_objects_read_m = 0, is_eof_m = False \<rparr>"
  from path assms(3,4) have 1: "reset env' p1 = Inr ?r"
    by (simp add: reset_def)
  from assms(3,4) have new: "BamParser_new env' path = Inr ?r" if "bam_init1 env'"
    using that by (simp add: BamParser_new_def)
  from 1 new have 2: "bam_init1 env' \<longrightarrow> reset env' p1 = BamParser_new env' path"
    by simp
  have 3: "\<forall>p0. BamParser_new env' path = Inr p0 \<longrightarrow>
             reset env' p1 = Inr p0
           \<and> (\<exists>p'. reset env' p1 = Inr p' \<and> parse_calls p' d budgets = parse_calls p0 d budgets)"
  proof (intro allI impI)
    fix p0 assume "BamParser_new env' path = Inr p0"
    with assms(3,4) have "p0 = ?r"
      by (simp add: BamParser_new_def split: if_splits)
    with 1 show "reset env' p1 = Inr p0
           \<and> (\<exists>p'. reset env' p1 = Inr p' \<and> parse_calls p' d budgets = parse_calls p0 d budgets)"
      by simp
  qed
  from path f0 h0 q0 have 4: "reset env p1 = Inr q0"
    by (simp add: reset_def)
  from q0 have 5: "path_m q0 = path" "num_objects_read_m q0 = 0" "\<not> is_eof_m q0"
    by simp_all
  from 4 have 6: "\<exists>p'. reset env p1 = Inr p' \<and> parse_calls p' d budgets = parse_calls q0 d budgets"
    by simp
  from path have 7: "hts_open env'' path = None \<longrightarrow> reset env'' p1 = Inl OpenFailed"
    by (simp add: reset_def)
  from path have 8: "\<forall>g. hts_open env'' path = Some g \<and> sam_hdr g = None \<longrightarrow>
             reset env'' p1 = Inl HeaderReadFailed"
    by (simp add: reset_def)
  show ?thesis by (intro conjI 1 2 3 4 5 6 7 8)
qed

theorem reset_restores_witness:
  "BamParser_new ex_env ''reads.bam'' = Inr ex_parser
   \<and> parse_calls ex_parser [] [0, - 1]
       = Inr ([True, True], ex_parser\<lparr> file_m := [], num_objects_read_m := 2, is_eof_m := True \<rparr>,
              [ex_overlap, ex_overlap_noqual])
   \<and> hts_open ex_env_later ''reads.bam''
       = Some \<lparr> sam_hdr = Some ex_header_later, records = [ex_primary] \<rparr>
   \<and> sam_hdr \<lparr> sam_hdr = Some ex_header_later, records = [ex_primary] \<rparr> = Some ex_header_later
   \<and> reset ex_env_later (ex_parser\<lparr> file_m := [], num_objects_read_m := 2, is_eof_m := True \<rparr>)
       = Inr \<lparr> path_m = ''reads.bam'', file_m = [ex_primary], header_m = ex_header_later,
               num_objects_read_m = 0, is_eof_m = False \<rparr>
   \<and> ex_header_later \<noteq> header_m (ex_parser\<lparr> file_m := [], num_objects_read_m := 2, is_eof_m := True \<rparr>)
   \<and> reset ex_env (ex_parser\<lparr> file_m := [], num_objects_read_m := 2, is_eof_m := True \<rparr>)
       = Inr ex_parser
   \<and> (\<exists>p'. reset ex_env (ex_parser\<lparr> file_m := [], num_objects_read_m := 2, is_eof_m := True \<rparr>)
              = Inr p'
           \<and> parse_calls p' [] [0, - 1] = parse_calls ex_parser [] [0, - 1])
   \<and> hts_open \<lparr> hts_open = (\<lambda>path. None), bam_init1 = True \<rparr> ''reads.bam'' = None
   \<and> reset \<lparr> hts_open = (\<lambda>path. None), bam_init1 = True \<rparr>
        (ex_parser\<lparr> file_m := [], num_objects_read_m := 2, is_eof_m := True \<rparr>)
       = Inl OpenFailed"
proof -
  let ?p1 = "ex_parser\<lparr> file_m := [], num_objects_read_m := 2, is_eof_m := True \<rparr>"
  let ?f = "\<lparr> sam_hdr = Some ex_header_later, records = [ex_primary] \<rparr>"
  let ?none = "\<lparr> hts_open = (\<lambda>path. None :: hts_stream option), bam_init1 = True \<rparr>"
  have new: "BamParser_new ex_env ''reads.bam'' = Inr ex_parser"
    by code_simp
  have calls: "parse_calls ex_parser [] [0, - 1]
       = Inr ([True, True], ?p1, [ex_overlap, ex_overlap_noqual])"
    by code_simp
  have f: "hts_open ex_env_later ''reads.bam'' = Some ?f"
    by (simp add: ex_env_later_def)
  have h: "sam_hdr ?f = Some ex_header_later"
    by simp
  have differs: "ex_header_later \<noteq> header_m ?p1"
    by (simp add: ex_header_later_def ex_parser_def ex_header_def)
  have nofile: "hts_open ?none ''reads.bam'' = None"
    by simp
  note t = reset_restores [OF new calls f h, of "[]" "[0, - 1]" ?none]
  have 1: "reset ex_env_later ?p1
       = Inr \<lparr> path_m = ''reads.bam'', file_m = records ?f, header_m = ex_header_later,
               num_objects_read_m = 0, is_eof_m = False \<rparr>"
    by (rule t [THEN conjunct1])
  then have r1: "reset ex_env_later ?p1
       = Inr \<lparr> path_m = ''reads.bam'', file_m = [ex_primary], header_m = ex_header_later,
               num_objects_read_m = 0, is_eof_m = False \<rparr>"
    by simp
  have 4: "reset ex_env ?p1 = Inr ex_parser"
    by (rule t [THEN conjunct2, THEN conjunct2, THEN conjunct2, THEN conjunct1])
  then have 6: "\<exists>p'. reset ex_env ?p1 = Inr p'
           \<and> parse_calls p' [] [0, - 1] = parse_calls ex_parser [] [0, - 1]"
    by simp
  have 7: "reset ?none ?p1 = Inl OpenFailed"
    by (rule t [THEN conjunct2, THEN conjunct2, THEN conjunct2, THEN conjunct2, THEN conjunct2,
          THEN conjunct2, THEN conjunct2, THEN conjunct2, THEN conjunct1, THEN mp, OF nofile])
  show ?thesis by (intro conjI new calls f h r1 differs 4 6 nofile 7)
qed

lemma parse_appends_all2:
  assumes "parse p d mb = Inr (ret, p', d')"
    and "\<And>a ov c. \<not> skipped a \<Longrightarrow> convert (header_m p) a = Inr (ov, c) \<Longrightarrow> P a ov"
  shows "\<exists>consumed news. file_m p = consumed @ file_m p' \<and> d' = d @ news
           \<and> list_all2 P (accepted consumed) news"
proof (rule parse_appends [OF assms(1)])
  fix consumed pairs
  assume a: "file_m p = consumed @ file_m p'"
    and b: "list_all2 (\<lambda>a oc. convert (header_m p) a = Inr oc) (accepted consumed) pairs"
    and c: "d' = d @ map fst pairs"
  from b have len: "length (accepted consumed) = length pairs"
    by (rule list_all2_lengthD)
  have "P (accepted consumed ! i) (map fst pairs ! i)" if "i < length (accepted consumed)" for i
  proof -
    from that have "accepted consumed ! i \<in> set (accepted consumed)" by simp
    then have ns: "\<not> skipped (accepted consumed ! i)" by (simp add: accepted_def)
    from b that have "convert (header_m p) (accepted consumed ! i) = Inr (pairs ! i)"
      by (rule list_all2_nthD)
    then have "convert (header_m p) (accepted consumed ! i) = Inr (fst (pairs ! i), snd (pairs ! i))"
      by simp
    from assms(2) [OF ns this] that len show ?thesis by simp
  qed
  with len have "list_all2 P (accepted consumed) (map fst pairs)"
    by (simp add: list_all2_conv_all_nth)
  with a c show ?thesis by blast
qed

lemma convert_cigar:
  assumes "convert h a = Inr (ov, c)"
  shows "cigar ov = concat (map cigar_op_text (take (unat (n_cigar (core a))) (bam_get_cigar a)))"
    and "cigar_length ov = word_of_nat (length (cigar ov))"
    and "unat (n_cigar (core a)) \<le> length (bam_get_cigar a)"
proof -
  from assms obtain cs where
    loop: "cigar_loop (bam_get_cigar a) (unat (n_cigar (core a))) 0 [] = Inr cs"
    and ov: "cigar ov = cs" "cigar_length ov = word_of_nat (length cs)"
    by (rule convert_Inr) simp
  from cigar_loop_Inr [OF loop] ov
  show "cigar ov = concat (map cigar_op_text (take (unat (n_cigar (core a))) (bam_get_cigar a)))"
    by simp
  from ov show "cigar_length ov = word_of_nat (length (cigar ov))" by simp
  from cigar_loop_Inr [OF loop] show "unat (n_cigar (core a)) \<le> length (bam_get_cigar a)"
    by (cases "0 < unat (n_cigar (core a))") simp_all
qed

lemma convert_flag:
  assumes "convert h a = Inr (ov, c)"
  shows "o_flag ov = ucast (flag (core a))"
  using assms by (rule convert_Inr) simp

lemma convert_fields:
  assumes "convert h a = Inr (ov, c)"
  shows "q_name ov = bam_get_qname a"
    and "q_name_length ov = ucast (l_qname (core a)) - 1"
    and "0 \<le> sint (tid (core a))"
    and "nat (sint (tid (core a))) < length (target_name h)"
    and "t_name ov = target_name h ! nat (sint (tid (core a)))"
    and "t_name_length ov = word_of_nat (length (t_name ov))"
    and "t_begin ov = ucast (pos (core a) + 1)"
    and "mapping_quality ov = ucast (qual (core a))"
proof -
  from assms obtain tn where
    tn: "target_name_at h (tid (core a)) = Inr tn"
    and ov: "q_name ov = bam_get_qname a" "q_name_length ov = ucast (l_qname (core a)) - 1"
      "t_name ov = tn" "t_name_length ov = word_of_nat (length tn)"
      "t_begin ov = ucast (pos (core a) + 1)" "mapping_quality ov = ucast (qual (core a))"
    by (rule convert_Inr) simp
  from tn have t: "0 \<le> sint (tid (core a))" "nat (sint (tid (core a))) < length (target_name h)"
    "tn = target_name h ! nat (sint (tid (core a)))"
    by (auto simp: target_name_at_def split: if_splits)
  from ov t show "q_name ov = bam_get_qname a"
    and "q_name_length ov = ucast (l_qname (core a)) - 1"
    and "0 \<le> sint (tid (core a))"
    and "nat (sint (tid (core a))) < length (target_name h)"
    and "t_name ov = target_name h ! nat (sint (tid (core a)))"
    and "t_name_length ov = word_of_nat (length (t_name ov))"
    and "t_begin ov = ucast (pos (core a) + 1)"
    and "mapping_quality ov = ucast (qual (core a))"
    by simp_all
qed

lemma convert_quality:
  assumes "convert h a = Inr (ov, c)"
  shows "bam_get_qual a \<noteq> []"
    and "quality ov = (if quality_text ov = [] then None else Some (quality_text ov))"
    and "quality_length ov = word_of_nat (length (quality_text ov))"
    and "hd (bam_get_qual a) = 255 \<Longrightarrow> quality_text ov = []"
    and "hd (bam_get_qual a) \<noteq> 255 \<Longrightarrow> length (quality_text ov) = unat (l_qseq (core a))"
    and "hd (bam_get_qual a) \<noteq> 255 \<Longrightarrow> i < unat (l_qseq (core a)) \<Longrightarrow>
           i < length (bam_get_qual a)
           \<and> of_char (quality_text ov ! i) = (unat (bam_get_qual a ! i) + 33) mod 256"
proof -
  from assms obtain qs where
    qs: "quality_string (bam_get_qual a) (l_qseq (core a)) = Inr qs"
    and ov: "quality ov = (if qs = [] then None else Some qs)"
      "quality_length ov = word_of_nat (length qs)"
    by (rule convert_Inr) simp
  from ov(1) have qt: "quality_text ov = qs" by (simp add: quality_text_def)
  from quality_string_Inr(1) [OF qs] show "bam_get_qual a \<noteq> []" .
  from ov qt show "quality ov = (if quality_text ov = [] then None else Some (quality_text ov))"
    and "quality_length ov = word_of_nat (length (quality_text ov))" by simp_all
  show "quality_text ov = []" if "hd (bam_get_qual a) = 255"
    using quality_string_Inr(2) [OF qs that] qt by simp
  show len: "length (quality_text ov) = unat (l_qseq (core a))" if "hd (bam_get_qual a) \<noteq> 255"
    using quality_string_Inr(4) [OF qs that] qt by simp
  show "i < length (bam_get_qual a)
           \<and> of_char (quality_text ov ! i) = (unat (bam_get_qual a ! i) + 33) mod 256"
    if ne: "hd (bam_get_qual a) \<noteq> 255" and i: "i < unat (l_qseq (core a))"
  proof -
    let ?q = "bam_get_qual a" and ?n = "unat (l_qseq (core a))"
    from quality_string_Inr(3) [OF qs ne] qt
    have m: "quality_text ov = map (\<lambda>b. char_of (unat b + 33)) (take ?n ?q)" by simp
    from len [OF ne] m have "length (take ?n ?q) = ?n" by simp
    with i have il: "i < length ?q" by simp
    from m i il have "quality_text ov ! i = char_of (unat (?q ! i) + 33)" by simp
    with il show ?thesis by simp
  qed
qed

lemma unat_ucast_mapq:
  fixes w :: "8 word"
  shows "unat (ucast w :: 32 word) = unat w"
proof -
  have "unat w < 2 ^ 8" using unsigned_less [of w, where ?'a = nat] by simp
  then show ?thesis by (simp add: unsigned_ucast_eq take_bit_eq_mod)
qed

lemma accepted_bits:
  "a \<in> set (accepted rs) \<longleftrightarrow>
     a \<in> set rs \<and> \<not> bit (flag (core a)) 2 \<and> \<not> bit (flag (core a)) 8 \<and> \<not> bit (flag (core a)) 11"
  by (auto simp: accepted_def skipped_bits)

subsection \<open>Filtering\<close>

text \<open>
  C1. A \<^verbatim>\<open>parse\<close> call that starts before the end of the stream and returns reads a prefix
  \<open>consumed\<close> of the stream. The overlaps it appends are, one for one and in order, the
  conversions of the records of that prefix that carry none of the unmapped, secondary
  and supplementary flags (bits 2, 8 and 11); a record with one of these flags adds nothing. The per-call
  counter \<open>num_objects\<close> ends at the number of those records, and the lifetime counter
  has grown by it (both in 64 bits).
\<close>
theorem parse_filtering:
  assumes "\<not> is_eof_m p" and "parse p d max_bytes = Inr (ret, p', d')"
  shows "\<exists>consumed news ex v.
           parse_run p d max_bytes = Inr (ex, file_m p', v)
         \<and> file_m p = consumed @ file_m p'
         \<and> d' = d @ news
         \<and> list_all2 (\<lambda>a ov. \<exists>c. convert (header_m p) a = Inr (ov, c)) (accepted consumed) news
         \<and> length news = length (accepted consumed)
         \<and> num_objects v = word_of_nat (length (accepted consumed))
         \<and> num_objects_read_m p' = num_objects_read_m p + word_of_nat (length (accepted consumed))
         \<and> (\<forall>a. a \<in> set (accepted consumed) \<longleftrightarrow>
                a \<in> set consumed \<and> \<not> bit (flag (core a)) 2 \<and> \<not> bit (flag (core a)) 8
                  \<and> \<not> bit (flag (core a)) 11)"
proof (rule parse_not_eof [OF assms])
  fix ex v
  assume run: "parse_run p d max_bytes = Inr (ex, file_m p', v)" and d': "d' = dst v"
    and p': "p' = p\<lparr> file_m := file_m p', num_objects_read_m := num_objects_read v,
                is_eof_m := (ex = StreamExhausted) \<rparr>"
  have nr: "num_objects_read_m p' = num_objects_read v"
    using arg_cong [OF p', of num_objects_read_m] by simp
  show ?thesis
  proof (rule parse_run_Inr [OF run])
    fix consumed pairs
    assume a: "file_m p = consumed @ file_m p'"
      and b: "list_all2 (\<lambda>a oc. convert (header_m p) a = Inr oc) (accepted consumed) pairs"
      and c: "dst v = d @ map fst pairs"
      and n: "num_objects v = word_of_nat (length pairs)"
      and r: "num_objects_read v = num_objects_read_m p + word_of_nat (length pairs)"
    from b have len: "length (accepted consumed) = length pairs"
      by (rule list_all2_lengthD)
    have "list_all2 (\<lambda>a oc. \<exists>c. convert (header_m p) a = Inr (fst oc, c)) (accepted consumed) pairs"
      by (rule list_all2_mono [OF b]) (metis prod.collapse)
    then have l: "list_all2 (\<lambda>a ov. \<exists>c. convert (header_m p) a = Inr (ov, c))
        (accepted consumed) (map fst pairs)"
      by (simp add: list_all2_map2)
    have "parse_run p d max_bytes = Inr (ex, file_m p', v)
         \<and> file_m p = consumed @ file_m p'
         \<and> d' = d @ map fst pairs
         \<and> list_all2 (\<lambda>a ov. \<exists>c. convert (header_m p) a = Inr (ov, c)) (accepted consumed) (map fst pairs)
         \<and> length (map fst pairs) = length (accepted consumed)
         \<and> num_objects v = word_of_nat (length (accepted consumed))
         \<and> num_objects_read_m p' = num_objects_read_m p + word_of_nat (length (accepted consumed))
         \<and> (\<forall>a. a \<in> set (accepted consumed) \<longleftrightarrow>
                a \<in> set consumed \<and> \<not> bit (flag (core a)) 2 \<and> \<not> bit (flag (core a)) 8
                  \<and> \<not> bit (flag (core a)) 11)"
      using run a c d' l len n r nr by (simp add: accepted_bits)
    then show ?thesis by (intro exI)
  qed
qed

theorem parse_filtering_witness:
  "\<not> is_eof_m ex_parser
   \<and> parse ex_parser [] (- 1)
       = Inr (True, ex_parser\<lparr> file_m := [], num_objects_read_m := 2, is_eof_m := True \<rparr>,
              [ex_overlap, ex_overlap_noqual])
   \<and> (\<exists>consumed news ex v.
           parse_run ex_parser [] (- 1) = Inr (ex, [], v)
         \<and> ex_file = consumed @ []
         \<and> [ex_overlap, ex_overlap_noqual] = [] @ news
         \<and> list_all2 (\<lambda>a ov. \<exists>c. convert ex_header a = Inr (ov, c)) (accepted consumed) news
         \<and> length news = length (accepted consumed)
         \<and> num_objects v = word_of_nat (length (accepted consumed))
         \<and> (2 :: 64 word) = 0 + word_of_nat (length (accepted consumed)))"
proof -
  let ?p = "ex_parser\<lparr> file_m := [], num_objects_read_m := 2, is_eof_m := True \<rparr>"
  have ne: "\<not> is_eof_m ex_parser" by (simp add: ex_parser_def)
  have run: "parse ex_parser [] (- 1) = Inr (True, ?p, [ex_overlap, ex_overlap_noqual])"
    by code_simp
  from parse_filtering [OF ne run] obtain consumed news ex v where
    "parse_run ex_parser [] (- 1) = Inr (ex, file_m ?p, v)"
    "file_m ex_parser = consumed @ file_m ?p"
    "[ex_overlap, ex_overlap_noqual] = [] @ news"
    "list_all2 (\<lambda>a ov. \<exists>c. convert (header_m ex_parser) a = Inr (ov, c)) (accepted consumed) news"
    "length news = length (accepted consumed)"
    "num_objects v = word_of_nat (length (accepted consumed))"
    "num_objects_read_m ?p = num_objects_read_m ex_parser + word_of_nat (length (accepted consumed))"
    by (elim exE conjE)
  then have "parse_run ex_parser [] (- 1) = Inr (ex, [], v)
         \<and> ex_file = consumed @ []
         \<and> [ex_overlap, ex_overlap_noqual] = [] @ news
         \<and> list_all2 (\<lambda>a ov. \<exists>c. convert ex_header a = Inr (ov, c)) (accepted consumed) news
         \<and> length news = length (accepted consumed)
         \<and> num_objects v = word_of_nat (length (accepted consumed))
         \<and> (2 :: 64 word) = 0 + word_of_nat (length (accepted consumed))"
    by (simp add: ex_parser_def)
  then have "\<exists>consumed news ex v. parse_run ex_parser [] (- 1) = Inr (ex, [], v)
         \<and> ex_file = consumed @ []
         \<and> [ex_overlap, ex_overlap_noqual] = [] @ news
         \<and> list_all2 (\<lambda>a ov. \<exists>c. convert ex_header a = Inr (ov, c)) (accepted consumed) news
         \<and> length news = length (accepted consumed)
         \<and> num_objects v = word_of_nat (length (accepted consumed))
         \<and> (2 :: 64 word) = 0 + word_of_nat (length (accepted consumed))"
    by (intro exI)
  with ne run show ?thesis by (intro conjI)
qed

lemma list_all2_rightD:
  assumes "list_all2 P xs ys" and "y \<in> set ys"
  shows "\<exists>x\<in>set xs. P x y"
proof -
  from assms(2) obtain i where i: "i < length ys" "ys ! i = y"
    by (auto simp: in_set_conv_nth)
  from assms(1) have len: "length xs = length ys" by (rule list_all2_lengthD)
  with assms(1) i have "P (xs ! i) y" by (auto dest: list_all2_nthD2)
  moreover from i len have "xs ! i \<in> set xs" by simp
  ultimately show ?thesis by blast
qed

lemma not_skipped_masks:
  assumes "\<not> skipped a"
  shows "(ucast (flag (core a)) :: 32 word) AND BAM_FUNMAP = 0"
    and "(ucast (flag (core a)) :: 32 word) AND BAM_FSECONDARY = 0"
    and "(ucast (flag (core a)) :: 32 word) AND BAM_FSUPPLEMENTARY = 0"
  using assms by (simp_all add: skipped_def Let_def)

subsection \<open>Flags of the appended overlaps\<close>

text \<open>
  C9. Every overlap that \<^verbatim>\<open>parse\<close> appends carries the flag word of its record
  (zero-extended from 16 to 32 bits), and in it the unmapped, secondary and
  supplementary bits are clear.
\<close>
theorem appended_flags:
  assumes "parse p d max_bytes = Inr (ret, p', d')"
  shows "\<exists>consumed news.
           file_m p = consumed @ file_m p' \<and> d' = d @ news
         \<and> list_all2 (\<lambda>a ov. o_flag ov = ucast (flag (core a))) (accepted consumed) news
         \<and> (\<forall>ov\<in>set news.
               o_flag ov AND BAM_FUNMAP = 0 \<and> o_flag ov AND BAM_FSECONDARY = 0
             \<and> o_flag ov AND BAM_FSUPPLEMENTARY = 0
             \<and> \<not> bit (o_flag ov) 2 \<and> \<not> bit (o_flag ov) 8 \<and> \<not> bit (o_flag ov) 11)"
proof -
  let ?P = "\<lambda>a ov. o_flag ov = ucast (flag (core a)) \<and> \<not> skipped a"
  from parse_appends_all2 [OF assms, of ?P]
  obtain consumed news where
    a: "file_m p = consumed @ file_m p'" and b: "d' = d @ news"
    and l: "list_all2 ?P (accepted consumed) news"
    by (auto dest: convert_flag)
  have l1: "list_all2 (\<lambda>a ov. o_flag ov = ucast (flag (core a))) (accepted consumed) news"
    by (rule list_all2_mono [OF l]) simp
  have clear: "o_flag ov AND BAM_FUNMAP = 0 \<and> o_flag ov AND BAM_FSECONDARY = 0
             \<and> o_flag ov AND BAM_FSUPPLEMENTARY = 0
             \<and> \<not> bit (o_flag ov) 2 \<and> \<not> bit (o_flag ov) 8 \<and> \<not> bit (o_flag ov) 11"
    if "ov \<in> set news" for ov
  proof -
    from list_all2_rightD [OF l that] obtain a where
      f: "o_flag ov = ucast (flag (core a))" and ns: "\<not> skipped a" by blast
    from ns have "\<not> bit (flag (core a)) 2" "\<not> bit (flag (core a)) 8" "\<not> bit (flag (core a)) 11"
      by (simp_all add: skipped_bits)
    then have "\<not> bit (o_flag ov) 2 \<and> \<not> bit (o_flag ov) 8 \<and> \<not> bit (o_flag ov) 11"
      by (simp add: f bit_ucast_iff)
    with not_skipped_masks [OF ns] f show ?thesis by simp
  qed
  from a b l1 clear show ?thesis by blast
qed

theorem appended_flags_witness:
  "parse ex_parser [] 0
     = Inr (True,
            ex_parser\<lparr> file_m := [ex_secondary, ex_unmapped, ex_primary_noqual],
                        num_objects_read_m := 1 \<rparr>,
            [ex_overlap])
   \<and> o_flag ex_overlap AND BAM_FUNMAP = 0 \<and> o_flag ex_overlap AND BAM_FSECONDARY = 0
   \<and> o_flag ex_overlap AND BAM_FSUPPLEMENTARY = 0
   \<and> \<not> bit (o_flag ex_overlap) 2 \<and> \<not> bit (o_flag ex_overlap) 8 \<and> \<not> bit (o_flag ex_overlap) 11"
proof -
  have run: "parse ex_parser [] 0
     = Inr (True,
            ex_parser\<lparr> file_m := [ex_secondary, ex_unmapped, ex_primary_noqual],
                        num_objects_read_m := 1 \<rparr>,
            [ex_overlap])"
    by code_simp
  from appended_flags [OF run] obtain news where
    n: "[ex_overlap] = [] @ news"
    and c: "\<forall>ov\<in>set news.
               o_flag ov AND BAM_FUNMAP = 0 \<and> o_flag ov AND BAM_FSECONDARY = 0
             \<and> o_flag ov AND BAM_FSUPPLEMENTARY = 0
             \<and> \<not> bit (o_flag ov) 2 \<and> \<not> bit (o_flag ov) 8 \<and> \<not> bit (o_flag ov) 11"
    by (elim exE conjE)
  from n have "news = [ex_overlap]" by simp
  then have "ex_overlap \<in> set news" by simp
  with c have "o_flag ex_overlap AND BAM_FUNMAP = 0 \<and> o_flag ex_overlap AND BAM_FSECONDARY = 0
   \<and> o_flag ex_overlap AND BAM_FSUPPLEMENTARY = 0
   \<and> \<not> bit (o_flag ex_overlap) 2 \<and> \<not> bit (o_flag ex_overlap) 8 \<and> \<not> bit (o_flag ex_overlap) 11"
    by (rule bspec)
  with run show ?thesis by (intro conjI) simp_all
qed

subsection \<open>CIGAR text\<close>

text \<open>
  C2. For every record that \<^verbatim>\<open>parse\<close> converts, the CIGAR text is the concatenation, in
  order and with no separator, of the texts of its first \<open>n_cigar\<close> packed operations,
  each the decimal length followed by the operation symbol. The digits of
  \<open>to_string\<close> read back as the number; a packed pair \<open>(l, op)\<close> renders as the decimal
  of \<open>l\<close> and symbol number \<open>op\<close>; \<open>[(4,M),(2,I),(10,M)]\<close> gives \<open>4M2I10M\<close>, and no
  operation gives the empty text.
\<close>
theorem cigar_text:
  assumes "parse p d max_bytes = Inr (ret, p', d')"
  shows "(\<exists>consumed news.
            file_m p = consumed @ file_m p' \<and> d' = d @ news
          \<and> list_all2
               (\<lambda>a ov. unat (n_cigar (core a)) \<le> length (bam_get_cigar a)
                  \<and> cigar ov = concat (map cigar_op_text
                                   (take (unat (n_cigar (core a))) (bam_get_cigar a)))
                  \<and> cigar_length ov = word_of_nat (length (cigar ov)))
               (accepted consumed) news)
       \<and> (\<forall>l op. l < 2 ^ 28 \<and> op < 16 \<longrightarrow>
             cigar_op_text (bam_cigar_gen l op) = to_string (unat l) @ [BAM_CIGAR_STR ! unat op])
       \<and> (\<forall>n. decimal_value (to_string n) = n \<and> set (to_string n) \<subseteq> set ''0123456789'')
       \<and> concat (map cigar_op_text [bam_cigar_gen 4 0, bam_cigar_gen 2 1, bam_cigar_gen 10 0])
           = ''4M2I10M''
       \<and> cigar_loop [bam_cigar_gen 4 0, bam_cigar_gen 2 1, bam_cigar_gen 10 0] 3 0 [] = Inr ''4M2I10M''
       \<and> concat (map cigar_op_text []) = ''''
       \<and> cigar_loop [] 0 0 [] = Inr ''''"
proof -
  have 1: "\<exists>consumed news.
            file_m p = consumed @ file_m p' \<and> d' = d @ news
          \<and> list_all2
               (\<lambda>a ov. unat (n_cigar (core a)) \<le> length (bam_get_cigar a)
                  \<and> cigar ov = concat (map cigar_op_text
                                   (take (unat (n_cigar (core a))) (bam_get_cigar a)))
                  \<and> cigar_length ov = word_of_nat (length (cigar ov)))
               (accepted consumed) news"
    by (rule parse_appends_all2 [OF assms]) (simp add: convert_cigar)
  have 2: "cigar_op_text (bam_cigar_gen l op) = to_string (unat l) @ [BAM_CIGAR_STR ! unat op]"
    if "l < 2 ^ 28 \<and> op < 16" for l op
    using that by (simp add: cigar_op_text_def bam_cigar_opchr_def cigar_gen_parts)
  have 3: "decimal_value (to_string n) = n \<and> set (to_string n) \<subseteq> set ''0123456789''" for n
    using to_string_digits [of n] by blast
  have 4: "concat (map cigar_op_text [bam_cigar_gen 4 0, bam_cigar_gen 2 1, bam_cigar_gen 10 0])
           = ''4M2I10M''"
    by code_simp
  have 5: "cigar_loop [bam_cigar_gen 4 0, bam_cigar_gen 2 1, bam_cigar_gen 10 0] 3 0 [] = Inr ''4M2I10M''"
    by code_simp
  have 6: "cigar_loop [] 0 0 [] = Inr ''''"
    by (simp add: cigar_loop.simps)
  have 7: "concat (map cigar_op_text []) = ''''" by simp
  have a2: "\<forall>l op. l < 2 ^ 28 \<and> op < 16 \<longrightarrow>
             cigar_op_text (bam_cigar_gen l op) = to_string (unat l) @ [BAM_CIGAR_STR ! unat op]"
    by (intro allI impI) (rule 2)
  have a3: "\<forall>n. decimal_value (to_string n) = n \<and> set (to_string n) \<subseteq> set ''0123456789''"
    by (intro allI) (rule 3)
  show ?thesis by (intro conjI 1 a2 a3 4 5 6 7)
qed

theorem cigar_text_witness:
  "parse ex_parser [] (- 1)
       = Inr (True, ex_parser\<lparr> file_m := [], num_objects_read_m := 2, is_eof_m := True \<rparr>,
              [ex_overlap, ex_overlap_noqual])
   \<and> (\<exists>consumed news.
          ex_file = consumed @ [] \<and> [ex_overlap, ex_overlap_noqual] = [] @ news
        \<and> list_all2
               (\<lambda>a ov. unat (n_cigar (core a)) \<le> length (bam_get_cigar a)
                  \<and> cigar ov = concat (map cigar_op_text
                                   (take (unat (n_cigar (core a))) (bam_get_cigar a)))
                  \<and> cigar_length ov = word_of_nat (length (cigar ov)))
               (accepted consumed) news)
   \<and> cigar ex_overlap = ''4M2I10M'' \<and> cigar ex_overlap_noqual = ''''"
proof -
  let ?p = "ex_parser\<lparr> file_m := [], num_objects_read_m := 2, is_eof_m := True \<rparr>"
  have run: "parse ex_parser [] (- 1) = Inr (True, ?p, [ex_overlap, ex_overlap_noqual])"
    by code_simp
  from cigar_text [OF run]
  have "\<exists>consumed news.
            file_m ex_parser = consumed @ file_m ?p \<and> [ex_overlap, ex_overlap_noqual] = [] @ news
          \<and> list_all2
               (\<lambda>a ov. unat (n_cigar (core a)) \<le> length (bam_get_cigar a)
                  \<and> cigar ov = concat (map cigar_op_text
                                   (take (unat (n_cigar (core a))) (bam_get_cigar a)))
                  \<and> cigar_length ov = word_of_nat (length (cigar ov)))
               (accepted consumed) news"
    by (rule conjunct1)
  then have e: "\<exists>consumed news.
          ex_file = consumed @ [] \<and> [ex_overlap, ex_overlap_noqual] = [] @ news
        \<and> list_all2
               (\<lambda>a ov. unat (n_cigar (core a)) \<le> length (bam_get_cigar a)
                  \<and> cigar ov = concat (map cigar_op_text
                                   (take (unat (n_cigar (core a))) (bam_get_cigar a)))
                  \<and> cigar_length ov = word_of_nat (length (cigar ov)))
               (accepted consumed) news"
    by (simp add: ex_parser_def)
  have c: "cigar ex_overlap = ''4M2I10M''" "cigar ex_overlap_noqual = ''''"
    by (simp_all add: ex_overlap_def ex_overlap_noqual_def)
  from run e c show ?thesis by (intro conjI)
qed

lemma byte_of_char:
  fixes b :: "8 word"
  assumes "(of_char c :: nat) = (unat b + 33) mod 256"
  shows "(of_char c :: 8 word) = b + 33"
proof -
  have "(of_char c :: 8 word) = of_nat (of_char c)"
    by (simp add: of_nat_of_char)
  also have "\<dots> = of_nat ((unat b + 33) mod 256)"
    by (simp only: assms)
  also have "\<dots> = of_nat (unat b + 33)"
    by (simp only: word_of_nat_eq_iff) (simp add: take_bit_eq_mod)
  also have "\<dots> = b + 33"
    by simp
  finally show ?thesis .
qed

subsection \<open>Quality text\<close>

text \<open>
  C3. For every record that \<^verbatim>\<open>parse\<close> converts: when the first raw quality byte is
  \<open>0xff\<close>, the constructor receives a null quality pointer and length 0, whatever the
  rest of the array; otherwise the quality text has \<open>l_qseq\<close> characters and character
  \<open>i\<close> has the code of raw byte \<open>i\<close> plus 33, as a byte (in 8-bit arithmetic, that is
  modulo 256). An empty
  text is handed over as a null pointer. Raw bytes 33, 34, 35 with length 3 give the
  codes 66, 67, 68.
\<close>
theorem quality_reconstruction:
  assumes "parse p d max_bytes = Inr (ret, p', d')"
  shows "(\<exists>consumed news.
            file_m p = consumed @ file_m p' \<and> d' = d @ news
          \<and> list_all2
               (\<lambda>a ov. bam_get_qual a \<noteq> []
                  \<and> quality ov = (if quality_text ov = [] then None else Some (quality_text ov))
                  \<and> quality_length ov = word_of_nat (length (quality_text ov))
                  \<and> (hd (bam_get_qual a) = 255 \<longrightarrow> quality ov = None \<and> quality_length ov = 0)
                  \<and> (hd (bam_get_qual a) \<noteq> 255 \<longrightarrow>
                        length (quality_text ov) = unat (l_qseq (core a))
                      \<and> quality_length ov = l_qseq (core a)
                      \<and> (\<forall>i. i < unat (l_qseq (core a)) \<longrightarrow>
                            i < length (bam_get_qual a)
                          \<and> of_char (quality_text ov ! i) = (unat (bam_get_qual a ! i) + 33) mod 256
                          \<and> of_char (quality_text ov ! i) = bam_get_qual a ! i + (33 :: 8 word))))
               (accepted consumed) news)
       \<and> (\<forall>q n. quality_string (255 # q) n = Inr [])
       \<and> quality_string [33, 34, 35] 3 = Inr ''BCD''
       \<and> map of_char ''BCD'' = [66, 67, 68 :: nat]"
proof -
  let ?P = "\<lambda>a ov. bam_get_qual a \<noteq> []
                  \<and> quality ov = (if quality_text ov = [] then None else Some (quality_text ov))
                  \<and> quality_length ov = word_of_nat (length (quality_text ov))
                  \<and> (hd (bam_get_qual a) = 255 \<longrightarrow> quality ov = None \<and> quality_length ov = 0)
                  \<and> (hd (bam_get_qual a) \<noteq> 255 \<longrightarrow>
                        length (quality_text ov) = unat (l_qseq (core a))
                      \<and> quality_length ov = l_qseq (core a)
                      \<and> (\<forall>i. i < unat (l_qseq (core a)) \<longrightarrow>
                            i < length (bam_get_qual a)
                          \<and> of_char (quality_text ov ! i) = (unat (bam_get_qual a ! i) + 33) mod 256
                          \<and> of_char (quality_text ov ! i) = bam_get_qual a ! i + (33 :: 8 word)))"
  have rec: "?P a ov" if c: "convert (header_m p) a = Inr (ov, c)" for a ov c
  proof -
    note q = convert_quality [OF c]
    have absent: "quality ov = None \<and> quality_length ov = 0" if "hd (bam_get_qual a) = 255"
      using q(2) q(3) q(4) [OF that] by simp
    have present: "length (quality_text ov) = unat (l_qseq (core a))
                      \<and> quality_length ov = l_qseq (core a)
                      \<and> (\<forall>i. i < unat (l_qseq (core a)) \<longrightarrow>
                            i < length (bam_get_qual a)
                          \<and> of_char (quality_text ov ! i) = (unat (bam_get_qual a ! i) + 33) mod 256
                          \<and> of_char (quality_text ov ! i) = bam_get_qual a ! i + (33 :: 8 word))"
      if ne: "hd (bam_get_qual a) \<noteq> 255"
    proof (intro conjI allI impI)
      show "length (quality_text ov) = unat (l_qseq (core a))" by (rule q(5) [OF ne])
      with q(3) show "quality_length ov = l_qseq (core a)" by simp
    next
      fix i assume "i < unat (l_qseq (core a))"
      from q(6) [OF ne this]
      show "i < length (bam_get_qual a)"
        and c: "of_char (quality_text ov ! i) = (unat (bam_get_qual a ! i) + 33) mod 256"
        by simp_all
      from byte_of_char [OF c]
      show "of_char (quality_text ov ! i) = bam_get_qual a ! i + (33 :: 8 word)" .
    qed
    from q(1) q(2) q(3) absent present show ?thesis by blast
  qed
  have 1: "\<exists>consumed news. file_m p = consumed @ file_m p' \<and> d' = d @ news
          \<and> list_all2 ?P (accepted consumed) news"
    by (rule parse_appends_all2 [OF assms]) (rule rec)
  have 2: "\<forall>q n. quality_string (255 # q) n = Inr []"
    by (simp add: quality_string_def)
  have 3: "quality_string [33, 34, 35] 3 = Inr ''BCD''"
    by code_simp
  have 4: "map of_char ''BCD'' = [66, 67, 68 :: nat]"
    by simp
  show ?thesis by (intro conjI 1 2 3 4)
qed

theorem quality_reconstruction_witness:
  "parse ex_parser [] (- 1)
       = Inr (True, ex_parser\<lparr> file_m := [], num_objects_read_m := 2, is_eof_m := True \<rparr>,
              [ex_overlap, ex_overlap_noqual])
   \<and> (\<exists>consumed news.
          ex_file = consumed @ [] \<and> [ex_overlap, ex_overlap_noqual] = [] @ news
        \<and> list_all2
               (\<lambda>a ov. bam_get_qual a \<noteq> []
                  \<and> quality ov = (if quality_text ov = [] then None else Some (quality_text ov))
                  \<and> quality_length ov = word_of_nat (length (quality_text ov))
                  \<and> (hd (bam_get_qual a) = 255 \<longrightarrow> quality ov = None \<and> quality_length ov = 0)
                  \<and> (hd (bam_get_qual a) \<noteq> 255 \<longrightarrow>
                        length (quality_text ov) = unat (l_qseq (core a))
                      \<and> quality_length ov = l_qseq (core a)
                      \<and> (\<forall>i. i < unat (l_qseq (core a)) \<longrightarrow>
                            i < length (bam_get_qual a)
                          \<and> of_char (quality_text ov ! i) = (unat (bam_get_qual a ! i) + 33) mod 256
                          \<and> of_char (quality_text ov ! i) = bam_get_qual a ! i + (33 :: 8 word))))
               (accepted consumed) news)
   \<and> hd (bam_get_qual ex_primary) \<noteq> 255 \<and> quality ex_overlap = Some ''BCD''
   \<and> hd (bam_get_qual ex_primary_noqual) = 255 \<and> quality ex_overlap_noqual = None"
proof -
  let ?p = "ex_parser\<lparr> file_m := [], num_objects_read_m := 2, is_eof_m := True \<rparr>"
  have run: "parse ex_parser [] (- 1) = Inr (True, ?p, [ex_overlap, ex_overlap_noqual])"
    by code_simp
  note t = quality_reconstruction [OF run, THEN conjunct1]
  have e: "\<exists>consumed news.
          ex_file = consumed @ [] \<and> [ex_overlap, ex_overlap_noqual] = [] @ news
        \<and> list_all2
               (\<lambda>a ov. bam_get_qual a \<noteq> []
                  \<and> quality ov = (if quality_text ov = [] then None else Some (quality_text ov))
                  \<and> quality_length ov = word_of_nat (length (quality_text ov))
                  \<and> (hd (bam_get_qual a) = 255 \<longrightarrow> quality ov = None \<and> quality_length ov = 0)
                  \<and> (hd (bam_get_qual a) \<noteq> 255 \<longrightarrow>
                        length (quality_text ov) = unat (l_qseq (core a))
                      \<and> quality_length ov = l_qseq (core a)
                      \<and> (\<forall>i. i < unat (l_qseq (core a)) \<longrightarrow>
                            i < length (bam_get_qual a)
                          \<and> of_char (quality_text ov ! i) = (unat (bam_get_qual a ! i) + 33) mod 256
                          \<and> of_char (quality_text ov ! i) = bam_get_qual a ! i + (33 :: 8 word))))
               (accepted consumed) news"
    using t by (simp add: ex_parser_def)
  have c: "hd (bam_get_qual ex_primary) \<noteq> 255" "quality ex_overlap = Some ''BCD''"
    "hd (bam_get_qual ex_primary_noqual) = 255" "quality ex_overlap_noqual = None"
    by (simp_all add: ex_primary_def ex_primary_noqual_def ex_overlap_def ex_overlap_noqual_def)
  from run e c show ?thesis by (intro conjI)
qed

subsection \<open>Extracted fields\<close>

text \<open>
  The fields that the conversion hands to the constructor, in the integer types of the
  code, for every record that \<^verbatim>\<open>parse\<close> converts: the query name is the record's, and
  the length handed over with it is \<open>l_qname - 1\<close>; the target name is entry \<open>tid\<close> of
  the header's name table (an index within the table), with its own length; the target
  begin is the position plus one, converted to the constructor's 32 bits (exactly
  position plus one for positions from 0 to \<open>2^32 - 2\<close>, and 100 for position 99); the
  mapping quality is the record's.
\<close>

lemma field_extraction:
  assumes "parse p d max_bytes = Inr (ret, p', d')"
  shows "\<exists>consumed news.
           file_m p = consumed @ file_m p' \<and> d' = d @ news
         \<and> list_all2
              (\<lambda>a ov. q_name ov = bam_get_qname a
                 \<and> q_name_length ov = ucast (l_qname (core a)) - 1
                 \<and> (0 < unat (l_qname (core a)) \<longrightarrow>
                       unat (q_name_length ov) = unat (l_qname (core a)) - 1)
                 \<and> 0 \<le> sint (tid (core a))
                 \<and> nat (sint (tid (core a))) < length (target_name (header_m p))
                 \<and> t_name ov = target_name (header_m p) ! nat (sint (tid (core a)))
                 \<and> t_name_length ov = word_of_nat (length (t_name ov))
                 \<and> t_begin ov = ucast (pos (core a) + 1)
                 \<and> (0 \<le> sint (pos (core a)) \<and> sint (pos (core a)) < 2 ^ 32 - 1 \<longrightarrow>
                       uint (t_begin ov) = sint (pos (core a)) + 1)
                 \<and> (pos (core a) = 99 \<longrightarrow> t_begin ov = 100)
                 \<and> mapping_quality ov = ucast (qual (core a))
                 \<and> unat (mapping_quality ov) = unat (qual (core a)))
              (accepted consumed) news"
proof (rule parse_appends_all2 [OF assms])
  fix a ov c
  assume c: "convert (header_m p) a = Inr (ov, c)"
  note f = convert_fields [OF c]
  have ql: "unat (q_name_length ov) = unat (l_qname (core a)) - 1" if "0 < unat (l_qname (core a))"
    using qname_len_nat [OF that] f(2) by simp
  have tb: "uint (t_begin ov) = sint (pos (core a)) + 1"
    if "0 \<le> sint (pos (core a)) \<and> sint (pos (core a)) < 2 ^ 32 - 1"
    using t_begin_int [of "pos (core a)"] that f(7) by simp
  have ex: "t_begin ov = 100" if "pos (core a) = 99"
    using f(7) that by simp
  have mq: "unat (mapping_quality ov) = unat (qual (core a))"
    using f(8) by (simp add: unat_ucast_mapq)
  from f ql tb ex mq
  show "q_name ov = bam_get_qname a
                 \<and> q_name_length ov = ucast (l_qname (core a)) - 1
                 \<and> (0 < unat (l_qname (core a)) \<longrightarrow>
                       unat (q_name_length ov) = unat (l_qname (core a)) - 1)
                 \<and> 0 \<le> sint (tid (core a))
                 \<and> nat (sint (tid (core a))) < length (target_name (header_m p))
                 \<and> t_name ov = target_name (header_m p) ! nat (sint (tid (core a)))
                 \<and> t_name_length ov = word_of_nat (length (t_name ov))
                 \<and> t_begin ov = ucast (pos (core a) + 1)
                 \<and> (0 \<le> sint (pos (core a)) \<and> sint (pos (core a)) < 2 ^ 32 - 1 \<longrightarrow>
                       uint (t_begin ov) = sint (pos (core a)) + 1)
                 \<and> (pos (core a) = 99 \<longrightarrow> t_begin ov = 100)
                 \<and> mapping_quality ov = ucast (qual (core a))
                 \<and> unat (mapping_quality ov) = unat (qual (core a))"
    by (intro conjI impI)
qed

lemma field_extraction_witness:
  "parse ex_parser [] 0
     = Inr (True,
            ex_parser\<lparr> file_m := [ex_secondary, ex_unmapped, ex_primary_noqual],
                        num_objects_read_m := 1 \<rparr>,
            [ex_overlap])
   \<and> (\<exists>consumed news.
           ex_file = consumed @ [ex_secondary, ex_unmapped, ex_primary_noqual]
         \<and> [ex_overlap] = [] @ news
         \<and> list_all2
              (\<lambda>a ov. q_name ov = bam_get_qname a
                 \<and> q_name_length ov = ucast (l_qname (core a)) - 1
                 \<and> (0 < unat (l_qname (core a)) \<longrightarrow>
                       unat (q_name_length ov) = unat (l_qname (core a)) - 1)
                 \<and> 0 \<le> sint (tid (core a))
                 \<and> nat (sint (tid (core a))) < length (target_name ex_header)
                 \<and> t_name ov = target_name ex_header ! nat (sint (tid (core a)))
                 \<and> t_name_length ov = word_of_nat (length (t_name ov))
                 \<and> t_begin ov = ucast (pos (core a) + 1)
                 \<and> (0 \<le> sint (pos (core a)) \<and> sint (pos (core a)) < 2 ^ 32 - 1 \<longrightarrow>
                       uint (t_begin ov) = sint (pos (core a)) + 1)
                 \<and> (pos (core a) = 99 \<longrightarrow> t_begin ov = 100)
                 \<and> mapping_quality ov = ucast (qual (core a))
                 \<and> unat (mapping_quality ov) = unat (qual (core a)))
              (accepted consumed) news)
   \<and> 0 < unat (l_qname (core ex_primary))
   \<and> 0 \<le> sint (pos (core ex_primary)) \<and> sint (pos (core ex_primary)) < 2 ^ 32 - 1
   \<and> pos (core ex_primary) = 99 \<and> t_begin ex_overlap = 100
   \<and> q_name ex_overlap = ''r1'' \<and> q_name_length ex_overlap = 2
   \<and> t_name ex_overlap = ''chr1'' \<and> mapping_quality ex_overlap = 60"
proof -
  let ?p = "ex_parser\<lparr> file_m := [ex_secondary, ex_unmapped, ex_primary_noqual],
                        num_objects_read_m := 1 \<rparr>"
  have run: "parse ex_parser [] 0 = Inr (True, ?p, [ex_overlap])"
    by code_simp
  have e: "\<exists>consumed news.
           ex_file = consumed @ [ex_secondary, ex_unmapped, ex_primary_noqual]
         \<and> [ex_overlap] = [] @ news
         \<and> list_all2
              (\<lambda>a ov. q_name ov = bam_get_qname a
                 \<and> q_name_length ov = ucast (l_qname (core a)) - 1
                 \<and> (0 < unat (l_qname (core a)) \<longrightarrow>
                       unat (q_name_length ov) = unat (l_qname (core a)) - 1)
                 \<and> 0 \<le> sint (tid (core a))
                 \<and> nat (sint (tid (core a))) < length (target_name ex_header)
                 \<and> t_name ov = target_name ex_header ! nat (sint (tid (core a)))
                 \<and> t_name_length ov = word_of_nat (length (t_name ov))
                 \<and> t_begin ov = ucast (pos (core a) + 1)
                 \<and> (0 \<le> sint (pos (core a)) \<and> sint (pos (core a)) < 2 ^ 32 - 1 \<longrightarrow>
                       uint (t_begin ov) = sint (pos (core a)) + 1)
                 \<and> (pos (core a) = 99 \<longrightarrow> t_begin ov = 100)
                 \<and> mapping_quality ov = ucast (qual (core a))
                 \<and> unat (mapping_quality ov) = unat (qual (core a)))
              (accepted consumed) news"
    using field_extraction [OF run] by (simp add: ex_parser_def)
  have c: "0 < unat (l_qname (core ex_primary))"
    "0 \<le> sint (pos (core ex_primary))" "sint (pos (core ex_primary)) < 2 ^ 32 - 1"
    "pos (core ex_primary) = 99" "t_begin ex_overlap = 100"
    "q_name ex_overlap = ''r1''" "q_name_length ex_overlap = 2"
    "t_name ex_overlap = ''chr1''" "mapping_quality ex_overlap = 60"
    by (simp_all add: ex_primary_def ex_overlap_def)
  from run e c show ?thesis by (intro conjI)
qed

text \<open>
  C4. The target name, the target begin and the mapping quality are extracted as
  stated above. The length handed over with the query name is meant to be the length of
  the name without its terminator, and the code takes \<open>l_qname - 1\<close> for it. The
  decoder ends a stored name with one to four NUL bytes and counts all of them in
  \<open>l_qname\<close>, so the code's length leaves out one of them only: for the name \<open>r1\<close>,
  stored with its terminator and one padding NUL (\<open>l_qname = 4\<close>), the conversion and
  \<^verbatim>\<open>parse\<close> hand over the length 3 with the two-character name.
\<close>

theorem qname_length_counts_padding:
  "bam_get_qname ex_padded = ''r1''
   \<and> unat (l_qname (core ex_padded)) = length (bam_get_qname ex_padded) + 1 + 1
   \<and> convert ex_header ex_padded = Inr (ex_overlap_padded, 120)
   \<and> q_name ex_overlap_padded = ''r1''
   \<and> length (q_name ex_overlap_padded) = 2
   \<and> q_name_length ex_overlap_padded = 3
   \<and> unat (q_name_length ex_overlap_padded) \<noteq> length (q_name ex_overlap_padded)
   \<and> parse (ex_parser\<lparr> file_m := [ex_padded] \<rparr>) [] 0
       = Inr (True, ex_parser\<lparr> file_m := [], num_objects_read_m := 1 \<rparr>, [ex_overlap_padded])"
proof -
  have 1: "bam_get_qname ex_padded = ''r1''"
    by (simp add: ex_padded_def ex_primary_def)
  have 2: "unat (l_qname (core ex_padded)) = length (bam_get_qname ex_padded) + 1 + 1"
    by (simp add: ex_padded_def ex_primary_def)
  have 3: "convert ex_header ex_padded = Inr (ex_overlap_padded, 120)"
    by code_simp
  have 4: "q_name ex_overlap_padded = ''r1''" "length (q_name ex_overlap_padded) = 2"
    "q_name_length ex_overlap_padded = 3"
    "unat (q_name_length ex_overlap_padded) \<noteq> length (q_name ex_overlap_padded)"
    by (simp_all add: ex_overlap_padded_def ex_overlap_def)
  have 5: "parse (ex_parser\<lparr> file_m := [ex_padded] \<rparr>) [] 0
       = Inr (True, ex_parser\<lparr> file_m := [], num_objects_read_m := 1 \<rparr>, [ex_overlap_padded])"
    by code_simp
  show ?thesis by (intro conjI 1 2 3 4 5)
qed

lemma parse_loop_skip_prefix:
  "\<forall>x\<in>set pre. skipped x \<Longrightarrow> parse_loop h mb (pre @ f) v = parse_loop h mb f v"
  by (induction pre) simp_all


subsection \<open>The byte budget\<close>



lemma count64_pos:
  assumes "n < 2 ^ 64"
  shows "(0 < (word_of_nat n :: 64 word)) = (n \<noteq> 0)"
proof -
  have "(word_of_nat n :: 64 word) = 0 \<longleftrightarrow> 2 ^ 64 dvd n"
    by (simp add: word_of_nat_eq_0_iff)
  also from assms have "\<dots> \<longleftrightarrow> n = 0"
    by (auto dest: dvd_imp_le)
  finally show ?thesis by (simp add: word_greater_zero_iff)
qed

lemma parse_run_all_skipped:
  assumes "\<forall>a\<in>set (file_m p). skipped a"
  shows "parse_run p d mb
           = Inr (StreamExhausted, [],
                  \<lparr> dst = d, current_bytes = 0, num_objects = 0,
                    num_objects_read = num_objects_read_m p \<rparr>)"
  using parse_loop_skip_prefix [OF assms, of "header_m p" mb "[]"]
  by (simp add: parse_run_def)

lemma parse_run_exhausted:
  assumes "parse_run p d mb = Inr (StreamExhausted, rest, v)"
  shows "rest = []"
    and "num_objects v = word_of_nat (length (accepted (file_m p)))"
    and "num_objects_read v = num_objects_read_m p + word_of_nat (length (accepted (file_m p)))"
    and "\<exists>news. dst v = d @ news \<and> length news = length (accepted (file_m p))"
proof -
  show "rest = []"
    by (rule parse_run_Inr [OF assms]) simp
  then have run: "parse_run p d mb = Inr (StreamExhausted, [], v)" using assms by simp
  show "num_objects v = word_of_nat (length (accepted (file_m p)))"
  proof (rule parse_run_Inr [OF run])
    fix consumed pairs
    assume "file_m p = consumed @ []"
      and "list_all2 (\<lambda>a oc. convert (header_m p) a = Inr oc) (accepted consumed) pairs"
      and "num_objects v = word_of_nat (length pairs)"
    then show ?thesis by (auto dest: list_all2_lengthD)
  qed
  show "num_objects_read v = num_objects_read_m p + word_of_nat (length (accepted (file_m p)))"
  proof (rule parse_run_Inr [OF run])
    fix consumed pairs
    assume "file_m p = consumed @ []"
      and "list_all2 (\<lambda>a oc. convert (header_m p) a = Inr oc) (accepted consumed) pairs"
      and "num_objects_read v = num_objects_read_m p + word_of_nat (length pairs)"
    then show ?thesis by (auto dest: list_all2_lengthD)
  qed
  show "\<exists>news. dst v = d @ news \<and> length news = length (accepted (file_m p))"
  proof (rule parse_run_Inr [OF run])
    fix consumed pairs
    assume "file_m p = consumed @ []"
      and "list_all2 (\<lambda>a oc. convert (header_m p) a = Inr oc) (accepted consumed) pairs"
      and "dst v = d @ map fst pairs"
    then have "dst v = d @ map fst pairs \<and> length (map fst pairs) = length (accepted (file_m p))"
      by (auto dest: list_all2_lengthD)
    then show ?thesis by (rule exI)
  qed
qed

lemma accepted_length_le: "length (accepted rs) \<le> length rs"
  by (simp add: accepted_def)

subsection \<open>Exhaustion of the stream\<close>

text \<open>
  C6. When the loop of a \<^verbatim>\<open>parse\<close> call ends because the read fails, so before the
  budget was reached, the call is an ordinary return: it sets \<open>is_eof_m\<close>, leaves the
  stream empty, and returns whether the per-call counter is above zero. The counter is
  the number of records of the stream that pass the filter, in 64 bits; for a stream of
  fewer than \<open>2^64\<close> records the call returns true exactly when at least one record was
  converted, that is when the destination grew. \<open>is_eof_m\<close> is set by no other exit: a
  call that leaves it false left through the budget and returned true. A stream whose
  records are all skipped gives false, with \<open>is_eof_m\<close> set and nothing appended.
\<close>
theorem end_of_stream:
  "(\<not> is_eof_m p \<and> parse_run p d max_bytes = Inr (StreamExhausted, rest, v) \<longrightarrow>
       rest = []
     \<and> parse p d max_bytes
         = Inr (0 < num_objects v,
                p\<lparr> file_m := [], num_objects_read_m := num_objects_read v, is_eof_m := True \<rparr>,
                dst v)
     \<and> num_objects v = word_of_nat (length (accepted (file_m p)))
     \<and> (length (file_m p) < 2 ^ 64 \<longrightarrow> (0 < num_objects v) = (accepted (file_m p) \<noteq> [])))
   \<and> (\<not> is_eof_m p \<and> parse p d max_bytes = Inr (ret, p', d') \<and> is_eof_m p' \<longrightarrow>
       file_m p' = []
     \<and> (\<exists>v. parse_run p d max_bytes = Inr (StreamExhausted, [], v) \<and> ret = (0 < num_objects v))
     \<and> (\<exists>news. d' = d @ news \<and> length news = length (accepted (file_m p)))
     \<and> (length (file_m p) < 2 ^ 64 \<longrightarrow>
           ret = (accepted (file_m p) \<noteq> []) \<and> ret = (d' \<noteq> d)))
   \<and> (\<not> is_eof_m p \<and> parse p d max_bytes = Inr (ret, p', d') \<and> \<not> is_eof_m p' \<longrightarrow>
       ret \<and> (\<exists>v. parse_run p d max_bytes = Inr (BudgetReached, file_m p', v)))
   \<and> (\<not> is_eof_m p \<and> (\<forall>a\<in>set (file_m p). skipped a) \<longrightarrow>
       parse p d max_bytes = Inr (False, p\<lparr> file_m := [], is_eof_m := True \<rparr>, d))"
proof (intro conjI impI)
  assume h: "\<not> is_eof_m p \<and> parse_run p d max_bytes = Inr (StreamExhausted, rest, v)"
  then have ne: "\<not> is_eof_m p" and run: "parse_run p d max_bytes = Inr (StreamExhausted, rest, v)"
    by simp_all
  note x = parse_run_exhausted [OF run]
  show "rest = []" by (rule x(1))
  with ne run show "parse p d max_bytes
         = Inr (0 < num_objects v,
                p\<lparr> file_m := [], num_objects_read_m := num_objects_read v, is_eof_m := True \<rparr>,
                dst v)"
    by (simp add: parse_def)
  show n: "num_objects v = word_of_nat (length (accepted (file_m p)))" by (rule x(2))
  show "(0 < num_objects v) = (accepted (file_m p) \<noteq> [])" if "length (file_m p) < 2 ^ 64"
  proof -
    from that accepted_length_le [of "file_m p"] have "length (accepted (file_m p)) < 2 ^ 64"
      by (rule le_less_trans [rotated])
    from count64_pos [OF this] n show ?thesis by simp
  qed
next
  assume h: "\<not> is_eof_m p \<and> parse p d max_bytes = Inr (ret, p', d') \<and> is_eof_m p'"
  then have ne: "\<not> is_eof_m p" and run: "parse p d max_bytes = Inr (ret, p', d')"
    and eof: "is_eof_m p'" by simp_all
  have all: "file_m p' = []
     \<and> (\<exists>v. parse_run p d max_bytes = Inr (StreamExhausted, [], v) \<and> ret = (0 < num_objects v))
     \<and> (\<exists>news. d' = d @ news \<and> length news = length (accepted (file_m p)))
     \<and> (length (file_m p) < 2 ^ 64 \<longrightarrow>
           ret = (accepted (file_m p) \<noteq> []) \<and> ret = (d' \<noteq> d))"
  proof (rule parse_not_eof [OF ne run])
    fix ex v
    assume r: "parse_run p d max_bytes = Inr (ex, file_m p', v)" and d': "d' = dst v"
      and ret: "ret = (ex = BudgetReached \<or> 0 < num_objects v)"
      and e: "is_eof_m p' = (ex = StreamExhausted)"
    from e eof have ex: "ex = StreamExhausted" by simp
    with r have r': "parse_run p d max_bytes = Inr (StreamExhausted, file_m p', v)" by simp
    note x = parse_run_exhausted [OF r']
    from ex ret have ret': "ret = (0 < num_objects v)" by simp
    from x(4) d' obtain news where
      news: "d' = d @ news" "length news = length (accepted (file_m p))" by auto
    have cnt: "ret = (accepted (file_m p) \<noteq> []) \<and> ret = (d' \<noteq> d)" if "length (file_m p) < 2 ^ 64"
    proof -
      from that accepted_length_le [of "file_m p"] have "length (accepted (file_m p)) < 2 ^ 64"
        by (rule le_less_trans [rotated])
      from count64_pos [OF this] x(2) ret' have a: "ret = (accepted (file_m p) \<noteq> [])" by simp
      from news have "(d' \<noteq> d) = (accepted (file_m p) \<noteq> [])" by auto
      with a show ?thesis by simp
    qed
    from r' x(1) ret' have "\<exists>v. parse_run p d max_bytes = Inr (StreamExhausted, [], v)
        \<and> ret = (0 < num_objects v)"
      by auto
    moreover from news have "\<exists>news. d' = d @ news \<and> length news = length (accepted (file_m p))"
      by blast
    ultimately show ?thesis using x(1) cnt by blast
  qed
  from all show "file_m p' = []" by (rule conjunct1)
  from all show "\<exists>v. parse_run p d max_bytes = Inr (StreamExhausted, [], v) \<and> ret = (0 < num_objects v)"
    by (elim conjE)
  from all show "\<exists>news. d' = d @ news \<and> length news = length (accepted (file_m p))"
    by (elim conjE)
  from all have imp: "length (file_m p) < 2 ^ 64 \<longrightarrow>
           ret = (accepted (file_m p) \<noteq> []) \<and> ret = (d' \<noteq> d)"
    by (elim conjE)
  show "ret = (accepted (file_m p) \<noteq> [])" if "length (file_m p) < 2 ^ 64"
    using imp that by blast
  show "ret = (d' \<noteq> d)" if "length (file_m p) < 2 ^ 64"
    using imp that by blast
next
  assume h: "\<not> is_eof_m p \<and> parse p d max_bytes = Inr (ret, p', d') \<and> \<not> is_eof_m p'"
  then have ne: "\<not> is_eof_m p" and run: "parse p d max_bytes = Inr (ret, p', d')"
    and eof: "\<not> is_eof_m p'" by simp_all
  have both: "ret \<and> (\<exists>v. parse_run p d max_bytes = Inr (BudgetReached, file_m p', v))"
  proof (rule parse_not_eof [OF ne run])
    fix ex v
    assume r: "parse_run p d max_bytes = Inr (ex, file_m p', v)"
      and ret: "ret = (ex = BudgetReached \<or> 0 < num_objects v)"
      and e: "is_eof_m p' = (ex = StreamExhausted)"
    from e eof have "ex = BudgetReached" by (cases ex) simp_all
    with r ret show ?thesis by auto
  qed
  then show ret and "\<exists>v. parse_run p d max_bytes = Inr (BudgetReached, file_m p', v)"
    by simp_all
next
  assume h: "\<not> is_eof_m p \<and> (\<forall>a\<in>set (file_m p). skipped a)"
  then have "\<forall>a\<in>set (file_m p). skipped a" by simp
  from parse_run_all_skipped [OF this, of d max_bytes] h
  show "parse p d max_bytes = Inr (False, p\<lparr> file_m := [], is_eof_m := True \<rparr>, d)"
    by (simp add: parse_def)
qed

theorem end_of_stream_witness:
  "\<not> is_eof_m ex_parser
   \<and> parse_run ex_parser [] (- 1)
       = Inr (StreamExhausted, [],
              \<lparr> dst = [ex_overlap, ex_overlap_noqual], current_bytes = 228, num_objects = 2,
                num_objects_read = 2 \<rparr>)
   \<and> parse ex_parser [] (- 1)
       = Inr (True, ex_parser\<lparr> file_m := [], num_objects_read_m := 2, is_eof_m := True \<rparr>,
              [ex_overlap, ex_overlap_noqual])
   \<and> is_eof_m (ex_parser\<lparr> file_m := [], num_objects_read_m := 2, is_eof_m := True \<rparr>)
   \<and> length (file_m ex_parser) < 2 ^ 64
   \<and> True = (accepted (file_m ex_parser) \<noteq> [])
   \<and> True = ([ex_overlap, ex_overlap_noqual] \<noteq> [])
   \<and> skipped ex_unmapped \<and> skipped ex_secondary
   \<and> parse (ex_parser\<lparr> file_m := [ex_unmapped, ex_secondary] \<rparr>) [] 0
       = Inr (False,
              ex_parser\<lparr> file_m := [ex_unmapped, ex_secondary] \<rparr>\<lparr> file_m := [], is_eof_m := True \<rparr>,
              [])"
proof -
  let ?v = "\<lparr> dst = [ex_overlap, ex_overlap_noqual], current_bytes = 228, num_objects = 2,
                num_objects_read = 2 :: 64 word \<rparr>"
  let ?p' = "ex_parser\<lparr> file_m := [], num_objects_read_m := 2, is_eof_m := True \<rparr>"
  let ?q = "ex_parser\<lparr> file_m := [ex_unmapped, ex_secondary] \<rparr>"
  have ne: "\<not> is_eof_m ex_parser" by (simp add: ex_parser_def)
  have run: "parse_run ex_parser [] (- 1) = Inr (StreamExhausted, [], ?v)"
    by code_simp
  have hypA: "\<not> is_eof_m ex_parser \<and> parse_run ex_parser [] (- 1) = Inr (StreamExhausted, [], ?v)"
    using ne run by (intro conjI)
  note a = end_of_stream [of ex_parser "[]" "- 1" "[]" ?v True ?p' "[ex_overlap, ex_overlap_noqual]",
      THEN conjunct1, THEN mp, OF hypA]
  from a have "parse ex_parser [] (- 1)
         = Inr (0 < num_objects ?v,
                ex_parser\<lparr> file_m := [], num_objects_read_m := num_objects_read ?v, is_eof_m := True \<rparr>,
                dst ?v)"
    by (elim conjE)
  then have p: "parse ex_parser [] (- 1) = Inr (True, ?p', [ex_overlap, ex_overlap_noqual])"
    by simp
  have eof: "is_eof_m ?p'" by simp
  have len: "length (file_m ex_parser) < 2 ^ 64" by (simp add: ex_parser_def ex_file_def)
  have hypB: "\<not> is_eof_m ex_parser
      \<and> parse ex_parser [] (- 1) = Inr (True, ?p', [ex_overlap, ex_overlap_noqual]) \<and> is_eof_m ?p'"
    using ne p eof by (intro conjI)
  note b = end_of_stream [of ex_parser "[]" "- 1" "[]" ?v True ?p' "[ex_overlap, ex_overlap_noqual]",
      THEN conjunct2, THEN conjunct1, THEN mp, OF hypB]
  from b have "length (file_m ex_parser) < 2 ^ 64 \<longrightarrow>
      True = (accepted (file_m ex_parser) \<noteq> []) \<and> True = ([ex_overlap, ex_overlap_noqual] \<noteq> [])"
    by (elim conjE)
  with len have r: "True = (accepted (file_m ex_parser) \<noteq> [])"
    "True = ([ex_overlap, ex_overlap_noqual] \<noteq> [])"
    by blast+
  have s: "skipped ex_unmapped" "skipped ex_secondary" by code_simp+
  then have hypC: "\<not> is_eof_m ?q \<and> (\<forall>a\<in>set (file_m ?q). skipped a)"
    by (simp add: ex_parser_def)
  note c = end_of_stream [of ?q "[]" 0 "[]" ?v True ?p' "[]",
      THEN conjunct2, THEN conjunct2, THEN conjunct2, THEN mp, OF hypC]
  from ne run p eof len r s c show ?thesis by (intro conjI)
qed

lemma cigar_loop_total:
  "n \<le> length cig \<Longrightarrow> \<exists>s. cigar_loop cig n i acc = Inr s"
proof (induction cig n i acc rule: cigar_loop.induct)
  case (1 cig n i acc)
  show ?case
  proof (cases "i < n")
    case False
    then show ?thesis by (simp add: cigar_loop.simps [of cig n i])
  next
    case True
    with "1.prems" have il: "i < length cig" by simp
    from "1.IH" [OF True il "1.prems"] True il show ?thesis
      by (simp add: cigar_loop.simps [of cig n i])
  qed
qed

lemma cigar_loop_fault:
  "cigar_loop cig n i acc = Inl e \<Longrightarrow> e = CigarOutOfRange"
proof (induction cig n i acc rule: cigar_loop.induct)
  case (1 cig n i acc)
  show ?case
  proof (cases "i < n \<and> i < length cig")
    case True
    with "1.prems" have "cigar_loop cig n (Suc i)
        (acc @ to_string (unat (bam_cigar_oplen (cig ! i))) @ [bam_cigar_opchr (cig ! i)]) = Inl e"
      by (simp add: cigar_loop.simps [of cig n i])
    with "1.IH" True show ?thesis by simp
  next
    case False
    with "1.prems" show ?thesis
      by (simp add: cigar_loop.simps [of cig n i] split: if_splits)
  qed
qed

lemma quality_loop_total:
  "n \<le> length q \<Longrightarrow> \<exists>s. quality_loop q n i acc = Inr s"
proof (induction q n i acc rule: quality_loop.induct)
  case (1 q n i acc)
  show ?case
  proof (cases "i < n")
    case False
    then show ?thesis by (simp add: quality_loop.simps [of q n i])
  next
    case True
    with "1.prems" have il: "i < length q" by simp
    from "1.IH" [OF True il "1.prems"] True il show ?thesis
      by (simp add: quality_loop.simps [of q n i])
  qed
qed

lemma quality_loop_fault:
  "quality_loop q n i acc = Inl e \<Longrightarrow> e = QualOutOfRange"
proof (induction q n i acc rule: quality_loop.induct)
  case (1 q n i acc)
  show ?case
  proof (cases "i < n \<and> i < length q")
    case True
    with "1.prems" have "quality_loop q n (Suc i) (acc[i := char_of (unat (q ! i) + 33)]) = Inl e"
      by (simp add: quality_loop.simps [of q n i])
    with "1.IH" True show ?thesis by simp
  next
    case False
    with "1.prems" show ?thesis
      by (simp add: quality_loop.simps [of q n i] split: if_splits)
  qed
qed

lemma quality_string_fault:
  assumes "quality_string q n = Inl e"
  shows "(e = QualFirstOutOfRange \<and> q = []) \<or> (e = QualOutOfRange \<and> q \<noteq> [])"
  using assms
  by (cases q) (auto simp: quality_string_def split: if_splits dest: quality_loop_fault)

lemma quality_string_total:
  assumes "q \<noteq> []" and "unat n \<le> length q"
  shows "\<exists>s. quality_string q n = Inr s"
proof -
  from assms(1) obtain q0 q' where q: "q = q0 # q'" by (cases q) auto
  from quality_loop_total [OF assms(2), of 0 "replicate (unat n) (CHR 0x00)"] q
  show ?thesis by (auto simp: quality_string_def)
qed

lemma convert_fault:
  assumes "convert h a = Inl e"
  shows "(e = TargetNameOutOfRange
            \<and> \<not> (0 \<le> sint (tid (core a)) \<and> nat (sint (tid (core a))) < length (target_name h)))
       \<or> e = CigarOutOfRange
       \<or> (e = QualFirstOutOfRange \<and> bam_get_qual a = [])
       \<or> e = QualOutOfRange"
proof (cases "target_name_at h (tid (core a))")
  case (Inl x)
  with assms have "e = x" by (simp add: convert_def Let_def)
  with Inl show ?thesis by (auto simp: target_name_at_def split: if_splits)
next
  case tn: (Inr tname)
  show ?thesis
  proof (cases "cigar_loop (bam_get_cigar a) (unat (n_cigar (core a))) 0 []")
    case (Inl x)
    with assms tn have "e = x" by (simp add: convert_def Let_def)
    with cigar_loop_fault [OF Inl] show ?thesis by simp
  next
    case cs: (Inr cstr)
    show ?thesis
    proof (cases "quality_string (bam_get_qual a) (l_qseq (core a))")
      case (Inl x)
      with assms tn cs have "e = x" by (simp add: convert_def Let_def)
      with quality_string_fault [OF Inl] show ?thesis by auto
    next
      case (Inr qs)
      with assms tn cs show ?thesis by (simp add: convert_def Let_def)
    qed
  qed
qed

lemma convert_total:
  assumes "0 \<le> sint (tid (core a))" "nat (sint (tid (core a))) < length (target_name h)"
    and "bam_get_qual a \<noteq> []"
    and "unat (n_cigar (core a)) \<le> length (bam_get_cigar a)"
    and "unat (l_qseq (core a)) \<le> length (bam_get_qual a)"
  shows "\<exists>oc. convert h a = Inr oc"
proof -
  from assms(1,2) obtain tn where 1: "target_name_at h (tid (core a)) = Inr tn"
    by (simp add: target_name_at_def)
  from cigar_loop_total [OF assms(4)] obtain cs where
    2: "cigar_loop (bam_get_cigar a) (unat (n_cigar (core a))) 0 [] = Inr cs" by blast
  from quality_string_total [OF assms(3,5)] obtain qs where
    3: "quality_string (bam_get_qual a) (l_qseq (core a)) = Inr qs" by blast
  from 1 2 3 show ?thesis by (simp add: convert_def Let_def)
qed

lemma parse_loop_fault:
  "parse_loop h mb f v = Inl e \<Longrightarrow> \<exists>a\<in>set f. \<not> skipped a \<and> convert h a = Inl e"
proof (induction f arbitrary: v)
  case Nil
  then show ?case by simp
next
  case (Cons a f)
  show ?case
  proof (cases "skipped a")
    case True
    with Cons.prems have "parse_loop h mb f v = Inl e" by simp
    from Cons.IH [OF this] show ?thesis by auto
  next
    case False
    show ?thesis
    proof (cases "convert h a")
      case (Inl x)
      with Cons.prems False have "x = e" by simp
      with Inl False show ?thesis by auto
    next
      case (Inr oc)
      obtain ov c where oc: "oc = (ov, c)" by (cases oc)
      let ?v = "v\<lparr> dst := dst v @ [ov], num_objects := num_objects v + 1,
                   num_objects_read := num_objects_read v + 1,
                   current_bytes := current_bytes v + c \<rparr>"
      from Cons.prems False Inr oc have "parse_loop h mb f ?v = Inl e"
        by (simp add: Let_def split: if_splits)
      from Cons.IH [OF this] show ?thesis by auto
    qed
  qed
qed

lemma parse_loop_total:
  "\<forall>a\<in>set f. \<not> skipped a \<longrightarrow> (\<exists>oc. convert h a = Inr oc) \<Longrightarrow> \<exists>r. parse_loop h mb f v = Inr r"
proof (induction f arbitrary: v)
  case Nil
  then show ?case by simp
next
  case (Cons a f)
  from Cons.prems have rest: "\<forall>a\<in>set f. \<not> skipped a \<longrightarrow> (\<exists>oc. convert h a = Inr oc)" by simp
  show ?case
  proof (cases "skipped a")
    case True
    with Cons.IH [OF rest, of v] show ?thesis by simp
  next
    case False
    with Cons.prems obtain ov c where cv: "convert h a = Inr (ov, c)" by auto
    let ?v = "v\<lparr> dst := dst v @ [ov], num_objects := num_objects v + 1,
                 num_objects_read := num_objects_read v + 1,
                 current_bytes := current_bytes v + c \<rparr>"
    from Cons.IH [OF rest, of ?v] False cv show ?thesis
      by (simp add: Let_def)
  qed
qed

subsection \<open>The unchecked reads\<close>

text \<open>
  C10. The name table is indexed by \<open>tid\<close> and the first quality byte is read with no
  check: a record whose \<open>tid\<close> is outside the table, or whose quality array is empty,
  takes the fault branch of the conversion. When every record of the stream that passes
  the filter has a \<open>tid\<close> inside the table and a non-empty quality array, no
  \<^verbatim>\<open>parse\<close> call takes either of the two branches; and when moreover the CIGAR and
  quality arrays are as long as \<open>n_cigar\<close> and \<open>l_qseq\<close> say (as the decoder lays them
  out), every \<^verbatim>\<open>parse\<close> call returns.
\<close>
theorem unchecked_reads_in_bounds:
  assumes "\<forall>a\<in>set (file_m p). \<not> skipped a \<longrightarrow>
             0 \<le> sint (tid (core a))
           \<and> nat (sint (tid (core a))) < length (target_name (header_m p))
           \<and> bam_get_qual a \<noteq> []"
  shows "parse p d max_bytes \<noteq> Inl TargetNameOutOfRange
       \<and> parse p d max_bytes \<noteq> Inl QualFirstOutOfRange
       \<and> ((\<forall>a\<in>set (file_m p). \<not> skipped a \<longrightarrow>
               unat (n_cigar (core a)) \<le> length (bam_get_cigar a)
             \<and> unat (l_qseq (core a)) \<le> length (bam_get_qual a))
            \<longrightarrow> (\<exists>ret p' d'. parse p d max_bytes = Inr (ret, p', d')))
       \<and> (\<not> (0 \<le> sint (tid (core b)) \<and> nat (sint (tid (core b))) < length (target_name h))
            \<longrightarrow> convert h b = Inl TargetNameOutOfRange)
       \<and> (0 \<le> sint (tid (core b)) \<and> nat (sint (tid (core b))) < length (target_name h)
            \<and> unat (n_cigar (core b)) \<le> length (bam_get_cigar b) \<and> bam_get_qual b = []
            \<longrightarrow> convert h b = Inl QualFirstOutOfRange)"
proof (intro conjI impI)
  have no: "e \<noteq> TargetNameOutOfRange \<and> e \<noteq> QualFirstOutOfRange" if "parse p d max_bytes = Inl e" for e
  proof -
    from that have ne: "\<not> is_eof_m p" by (auto simp: parse_def split: if_splits)
    with that have "parse_loop (header_m p) max_bytes (file_m p)
        \<lparr> dst = d, current_bytes = 0, num_objects = 0, num_objects_read = num_objects_read_m p \<rparr>
        = Inl e"
      by (auto simp: parse_def parse_run_def split: sum.splits loop_exit.splits)
    from parse_loop_fault [OF this] obtain a where
      a: "a \<in> set (file_m p)" "\<not> skipped a" "convert (header_m p) a = Inl e" by blast
    from assms a(1,2) have ok: "0 \<le> sint (tid (core a))"
      "nat (sint (tid (core a))) < length (target_name (header_m p))" "bam_get_qual a \<noteq> []"
      by blast+
    from convert_fault [OF a(3)] ok show ?thesis by auto
  qed
  from no show "parse p d max_bytes \<noteq> Inl TargetNameOutOfRange" by blast
  from no show "parse p d max_bytes \<noteq> Inl QualFirstOutOfRange" by blast
next
  assume lay: "\<forall>a\<in>set (file_m p). \<not> skipped a \<longrightarrow>
               unat (n_cigar (core a)) \<le> length (bam_get_cigar a)
             \<and> unat (l_qseq (core a)) \<le> length (bam_get_qual a)"
  have "\<forall>a\<in>set (file_m p). \<not> skipped a \<longrightarrow> (\<exists>oc. convert (header_m p) a = Inr oc)"
  proof (intro ballI impI)
    fix a assume a: "a \<in> set (file_m p)" "\<not> skipped a"
    with assms have "0 \<le> sint (tid (core a))"
      "nat (sint (tid (core a))) < length (target_name (header_m p))" "bam_get_qual a \<noteq> []"
      by blast+
    moreover from lay a have "unat (n_cigar (core a)) \<le> length (bam_get_cigar a)"
      "unat (l_qseq (core a)) \<le> length (bam_get_qual a)"
      by blast+
    ultimately show "\<exists>oc. convert (header_m p) a = Inr oc" by (rule convert_total)
  qed
  from parse_loop_total [OF this] obtain r where
    "parse_run p d max_bytes = Inr r" unfolding parse_run_def by blast
  moreover obtain ex rest v where "r = (ex, rest, v)" by (cases r)
  ultimately have r: "parse_run p d max_bytes = Inr (ex, rest, v)" by simp
  show "\<exists>ret p' d'. parse p d max_bytes = Inr (ret, p', d')"
    using r by (cases ex) (auto simp: parse_def)
next
  assume "\<not> (0 \<le> sint (tid (core b)) \<and> nat (sint (tid (core b))) < length (target_name h))"
  then have "target_name_at h (tid (core b)) = Inl TargetNameOutOfRange"
    by (auto simp: target_name_at_def)
  then show "convert h b = Inl TargetNameOutOfRange"
    by (simp add: convert_def Let_def)
next
  assume h: "0 \<le> sint (tid (core b)) \<and> nat (sint (tid (core b))) < length (target_name h)
            \<and> unat (n_cigar (core b)) \<le> length (bam_get_cigar b) \<and> bam_get_qual b = []"
  then have "unat (n_cigar (core b)) \<le> length (bam_get_cigar b)" by simp
  from cigar_loop_total [OF this] obtain cs where
    "cigar_loop (bam_get_cigar b) (unat (n_cigar (core b))) 0 [] = Inr cs" by blast
  moreover from h have "target_name_at h (tid (core b))
      = Inr (target_name h ! nat (sint (tid (core b))))"
    by (simp add: target_name_at_def)
  moreover from h have "quality_string (bam_get_qual b) (l_qseq (core b)) = Inl QualFirstOutOfRange"
    by (simp add: quality_string_def)
  ultimately show "convert h b = Inl QualFirstOutOfRange"
    by (simp add: convert_def Let_def)
qed

theorem unchecked_reads_in_bounds_witness:
  "list_all (\<lambda>a. \<not> skipped a \<longrightarrow>
             0 \<le> sint (tid (core a))
           \<and> nat (sint (tid (core a))) < length (target_name (header_m ex_parser))
           \<and> bam_get_qual a \<noteq> []) (file_m ex_parser)
   \<and> list_all (\<lambda>a. \<not> skipped a \<longrightarrow>
               unat (n_cigar (core a)) \<le> length (bam_get_cigar a)
             \<and> unat (l_qseq (core a)) \<le> length (bam_get_qual a)) (file_m ex_parser)
   \<and> parse ex_parser [] 0 \<noteq> Inl TargetNameOutOfRange
   \<and> parse ex_parser [] 0 \<noteq> Inl QualFirstOutOfRange
   \<and> (\<exists>ret p' d'. parse ex_parser [] 0 = Inr (ret, p', d'))
   \<and> \<not> (0 \<le> sint (tid (core ex_unmapped))
          \<and> nat (sint (tid (core ex_unmapped))) < length (target_name ex_header))
   \<and> convert ex_header ex_unmapped = Inl TargetNameOutOfRange"
proof -
  have pre: "list_all (\<lambda>a. \<not> skipped a \<longrightarrow>
             0 \<le> sint (tid (core a))
           \<and> nat (sint (tid (core a))) < length (target_name (header_m ex_parser))
           \<and> bam_get_qual a \<noteq> []) (file_m ex_parser)"
    by code_simp
  have lay: "list_all (\<lambda>a. \<not> skipped a \<longrightarrow>
               unat (n_cigar (core a)) \<le> length (bam_get_cigar a)
             \<and> unat (l_qseq (core a)) \<le> length (bam_get_qual a)) (file_m ex_parser)"
    by code_simp
  have bad: "\<not> (0 \<le> sint (tid (core ex_unmapped))
          \<and> nat (sint (tid (core ex_unmapped))) < length (target_name ex_header))"
    by (simp add: ex_unmapped_def)
  note t = unchecked_reads_in_bounds [OF pre [unfolded list_all_iff],
      of "[]" 0 ex_unmapped ex_header]
  have 1: "parse ex_parser [] 0 \<noteq> Inl TargetNameOutOfRange"
    by (rule t [THEN conjunct1])
  have 2: "parse ex_parser [] 0 \<noteq> Inl QualFirstOutOfRange"
    by (rule t [THEN conjunct2, THEN conjunct1])
  have 3: "\<exists>ret p' d'. parse ex_parser [] 0 = Inr (ret, p', d')"
    by (rule t [THEN conjunct2, THEN conjunct2, THEN conjunct1, THEN mp,
          OF lay [unfolded list_all_iff]])
  have 4: "convert ex_header ex_unmapped = Inl TargetNameOutOfRange"
    by (rule t [THEN conjunct2, THEN conjunct2, THEN conjunct2, THEN conjunct1, THEN mp, OF bad])
  from pre lay 1 2 3 bad 4 show ?thesis by (intro conjI)
qed

end
